theory Spec2Isabelle
  imports Main
begin

section \<open>JavaScript strings\<close>

text \<open>
  A JavaScript string is a sequence of UTF-16 code units; \<open>s.length\<close>, \<open>s[i]\<close>,
  \<open>slice\<close> and regular expressions without the \<open>u\<close> flag all count code units.
  A code unit is modelled as a natural number below 65536.
\<close>

type_synonym jstring = "nat list"

definition js :: "string \<Rightarrow> jstring" where
  "js s = map of_char s"

text \<open>The UTF-16 encoding of one code point, and of a sequence of code points.\<close>

definition utf16 :: "nat \<Rightarrow> jstring" where
  "utf16 cp = (if cp < 65536 then [cp]
               else [55296 + (cp - 65536) div 1024, 56320 + (cp - 65536) mod 1024])"

definition utf16s :: "nat list \<Rightarrow> jstring" where
  "utf16s cps = concat (map utf16 cps)"

section \<open>Text style codec (signal-formatting.ts)\<close>

datatype style_kind = BOLD | ITALIC | SPOILER | STRIKETHROUGH | MONOSPACE

text \<open>\<open>interface TextStyle {style; start; length}\<close>; the fields carry a prefix because
  \<open>length\<close> is the list function.\<close>

record TextStyle =
  ts_style :: style_kind
  ts_start :: int
  ts_length :: int

record MarkerMatch =
  openStart :: nat
  openEnd :: nat
  closeStart :: nat
  closeEnd :: nat
  style :: style_kind

text \<open>
  The six regular expressions of \<open>patterns\<close> share one shape: an opening delimiter
  (\<open>markerLen\<close> copies of one character), a non-empty run of characters other than the
  delimiter character, and the closing delimiter; three of them (single tilde, bold,
  italic) carry a negative lookbehind on the code unit before the opening delimiter and
  a negative lookahead on the code unit after the closing one. \<open>lookbehind\<close> and
  \<open>lookahead\<close> hold the class of code units that the lookaround refuses. The
  single-tilde and the bold expression also have a lookahead after the opening and a
  lookbehind before the closing delimiter; these two always hold, since the code units
  they look at belong to the content, which excludes the delimiter character.
\<close>

record pattern =
  delim :: nat
  markerLen :: nat
  pstyle :: style_kind
  lookbehind :: "nat \<Rightarrow> bool"
  lookahead :: "nat \<Rightarrow> bool"

text \<open>\<open>\w\<close> without the \<open>u\<close> and \<open>i\<close> flags: \<open>[A-Za-z0-9_]\<close>.\<close>

definition word_char :: "nat \<Rightarrow> bool" where
  "word_char c = ((65 \<le> c \<and> c \<le> 90) \<or> (97 \<le> c \<and> c \<le> 122) \<or> (48 \<le> c \<and> c \<le> 57) \<or> c = 95)"

definition pat_code :: pattern where
  "pat_code = \<lparr>delim = 96, markerLen = 1, pstyle = MONOSPACE,
                lookbehind = (\<lambda>c. False), lookahead = (\<lambda>c. False)\<rparr>"

definition pat_spoiler :: pattern where
  "pat_spoiler = \<lparr>delim = 124, markerLen = 2, pstyle = SPOILER,
                   lookbehind = (\<lambda>c. False), lookahead = (\<lambda>c. False)\<rparr>"

definition pat_strike2 :: pattern where
  "pat_strike2 = \<lparr>delim = 126, markerLen = 2, pstyle = STRIKETHROUGH,
                   lookbehind = (\<lambda>c. False), lookahead = (\<lambda>c. False)\<rparr>"

definition pat_strike1 :: pattern where
  "pat_strike1 = \<lparr>delim = 126, markerLen = 1, pstyle = STRIKETHROUGH,
                   lookbehind = (\<lambda>c. c = 126), lookahead = (\<lambda>c. c = 126)\<rparr>"

definition pat_bold :: pattern where
  "pat_bold = \<lparr>delim = 42, markerLen = 1, pstyle = BOLD,
                lookbehind = (\<lambda>c. c = 42), lookahead = (\<lambda>c. c = 42)\<rparr>"

definition pat_italic :: pattern where
  "pat_italic = \<lparr>delim = 95, markerLen = 1, pstyle = ITALIC,
                  lookbehind = word_char, lookahead = word_char\<rparr>"

definition patterns :: "pattern list" where
  "patterns = [pat_code, pat_spoiler, pat_strike2, pat_strike1, pat_bold, pat_italic]"

text \<open>
  One attempt of the regular expression at position \<open>i\<close>; the result is the end of the
  match. The content class excludes the delimiter character, so the content is the
  maximal run of other characters after the opening delimiter (greedy \<open>+\<close>), and also the
  only candidate of the lazy \<open>+?\<close>: a shorter content is followed by a character that is
  not the delimiter, a longer one would contain it.
\<close>

definition match_at :: "pattern \<Rightarrow> jstring \<Rightarrow> nat \<Rightarrow> nat option" where
  "match_at p s i =
     (let d = delim p; ml = markerLen p in
      if take ml (drop i s) = replicate ml d \<and> (i = 0 \<or> \<not> lookbehind p (s ! (i - 1))) then
        (let content = takeWhile (\<lambda>c. c \<noteq> d) (drop (i + ml) s);
             j = i + ml + length content in
         if content \<noteq> [] \<and> take ml (drop j s) = replicate ml d
            \<and> (length s \<le> j + ml \<or> \<not> lookahead p (s ! (j + ml)))
         then Some (j + ml) else None)
      else None)"

lemma match_at_gt: "match_at p s i = Some e \<Longrightarrow> i < e"
  by (auto simp: match_at_def Let_def split: if_splits)

text \<open>
  \<open>while ((m = re.exec(input)) !== null)\<close> with the \<open>g\<close> flag: the leftmost match at or
  after \<open>lastIndex\<close>, then \<open>lastIndex\<close> moves to the end of the match. The result lists
  \<open>(m.index, m.index + m[0].length)\<close> of every match.
\<close>

function scan :: "pattern \<Rightarrow> jstring \<Rightarrow> nat \<Rightarrow> (nat \<times> nat) list" where
  "scan p s i =
     (if length s \<le> i then []
      else (case match_at p s i of
              None \<Rightarrow> scan p s (Suc i)
            | Some e \<Rightarrow> (i, e) # scan p s e))"
  by pat_completeness auto
termination
  by (relation "measure (\<lambda>(p, s, i). length s - i)") (auto dest: match_at_gt)

declare scan.simps [simp del]

record cstate =
  matches :: "MarkerMatch list"
  markers :: "nat set"
  protected :: "nat set"

text \<open>The body of the \<open>while\<close> loop for one match of the pattern \<open>p\<close>.\<close>

definition claim :: "pattern \<Rightarrow> cstate \<Rightarrow> nat \<times> nat \<Rightarrow> cstate" where
  "claim p st m =
     (let oS = fst m;
          oE = oS + markerLen p;
          cS = oS + (snd m - fst m) - markerLen p;
          cE = oS + (snd m - fst m) in
      if list_ex (\<lambda>i. i \<in> markers st \<or> i \<in> protected st) [oS..<cE] then st
      else st\<lparr>matches := matches st @
                  [\<lparr>openStart = oS, openEnd = oE, closeStart = cS, closeEnd = cE, style = pstyle p\<rparr>],
               markers := markers st \<union> set [oS..<oE] \<union> set [cS..<cE],
               protected := (if pstyle p = MONOSPACE then protected st \<union> set [oE..<cS]
                             else protected st)\<rparr>)"

definition collect_pattern :: "jstring \<Rightarrow> cstate \<Rightarrow> pattern \<Rightarrow> cstate" where
  "collect_pattern s st p = foldl (claim p) st (scan p s 0)"

definition collect :: "pattern list \<Rightarrow> jstring \<Rightarrow> cstate" where
  "collect ps s = foldl (collect_pattern s) \<lparr>matches = [], markers = {}, protected = {}\<rparr> ps"

text \<open>The loop that builds \<open>out\<close> and \<open>indexMap\<close>.\<close>

definition build_step :: "nat set \<Rightarrow> jstring \<Rightarrow> int list \<times> jstring \<Rightarrow> nat \<Rightarrow> int list \<times> jstring" where
  "build_step mk s acc i =
     (if i \<in> mk then (fst acc @ [- 1], snd acc)
      else (fst acc @ [int (length (snd acc))], snd acc @ [s ! i]))"

definition build :: "nat set \<Rightarrow> jstring \<Rightarrow> int list \<times> jstring" where
  "build mk s = foldl (build_step mk s) ([], []) [0..<length s]"

text \<open>\<open>indexMap[k]\<close>: \<open>undefined\<close> (here \<open>None\<close>) outside the array.\<close>

definition lookup :: "int list \<Rightarrow> int \<Rightarrow> int option" where
  "lookup xs k = (if 0 \<le> k \<and> k < int (length xs) then Some (xs ! nat k) else None)"

text \<open>\<open>while (lastContentIdx >= m.openEnd && indexMap[lastContentIdx] === -1) lastContentIdx--\<close>\<close>

function lastContent :: "int list \<Rightarrow> int \<Rightarrow> int \<Rightarrow> int" where
  "lastContent im oE l =
     (if oE \<le> l \<and> lookup im l = Some (- 1) then lastContent im oE (l - 1) else l)"
  by pat_completeness auto
termination
  by (relation "measure (\<lambda>(im, oE, l). nat (l - oE + 1))") auto

declare lastContent.simps [simp del]

text \<open>
  One iteration of \<open>for (const m of matches)\<close>: \<open>None\<close> when nothing is pushed. An
  \<open>undefined\<close> operand makes \<open>length\<close> \<open>NaN\<close>, and \<open>NaN > 0\<close> is false.
\<close>

definition span_of :: "int list \<Rightarrow> MarkerMatch \<Rightarrow> TextStyle option" where
  "span_of im m =
     (let start = lookup im (int (openEnd m));
          lastContentIdx = lastContent im (int (openEnd m)) (int (closeStart m) - 1) in
      if start = Some (- 1) \<or> lastContentIdx < int (openEnd m) then None
      else (case (start, lookup im lastContentIdx) of
              (Some st, Some e) \<Rightarrow>
                (if 0 < e + 1 - st
                 then Some \<lparr>ts_style = style m, ts_start = st, ts_length = e + 1 - st\<rparr>
                 else None)
            | _ \<Rightarrow> None))"

definition parseSignalStyles :: "jstring \<Rightarrow> jstring \<times> TextStyle list" where
  "parseSignalStyles input =
     (if input = [] then (input, [])
      else (let st = collect patterns input in
            if matches st = [] then (input, [])
            else (let (indexMap, out) = build (markers st) input in
                  (out, sort_key ts_start (List.map_filter (span_of indexMap) (matches st))))))"


section \<open>JavaScript string helpers\<close>

text \<open>\<open>s.slice(a, b)\<close> and \<open>s.slice(a)\<close>: a negative index counts from the end, and both
  indices are clamped to the string.\<close>

definition js_index :: "nat \<Rightarrow> int \<Rightarrow> nat" where
  "js_index n a = (if a < 0 then nat (max (int n + a) 0) else min (nat a) n)"

definition slice :: "jstring \<Rightarrow> int \<Rightarrow> int \<Rightarrow> jstring" where
  "slice s a b = take (js_index (length s) b - js_index (length s) a) (drop (js_index (length s) a) s)"

definition slice_from :: "jstring \<Rightarrow> int \<Rightarrow> jstring" where
  "slice_from s a = drop (js_index (length s) a) s"

text \<open>\<open>a || b\<close> on values of type \<open>string | undefined\<close>: the empty string and
  \<open>undefined\<close> are falsy.\<close>

definition truthy :: "jstring option \<Rightarrow> bool" where
  "truthy a = (case a of None \<Rightarrow> False | Some s \<Rightarrow> s \<noteq> [])"

definition or_else :: "jstring option \<Rightarrow> jstring option \<Rightarrow> jstring option" where
  "or_else a b = (if truthy a then a else b)"

text \<open>\<open>a || 'literal'\<close>, which always yields a string.\<close>

definition or_default :: "jstring option \<Rightarrow> jstring \<Rightarrow> jstring" where
  "or_default a d = (case a of None \<Rightarrow> d | Some s \<Rightarrow> if s \<noteq> [] then s else d)"

text \<open>The code units that \<open>trim\<close> removes: WhiteSpace and LineTerminator of ECMAScript.\<close>

definition js_space :: "nat \<Rightarrow> bool" where
  "js_space c = (c \<in> {9, 10, 11, 12, 13, 32, 160, 5760, 8232, 8233, 8239, 8287, 12288, 65279}
                 \<or> (8192 \<le> c \<and> c \<le> 8202))"

definition trim :: "jstring \<Rightarrow> jstring" where
  "trim s = rev (dropWhile js_space (rev (dropWhile js_space s)))"

definition startsWith :: "jstring \<Rightarrow> jstring \<Rightarrow> bool" where
  "startsWith s p = (take (length p) s = p)"

text \<open>\<open>parts.join(sep)\<close>\<close>

fun join :: "jstring \<Rightarrow> jstring list \<Rightarrow> jstring" where
  "join sep [] = []"
| "join sep [x] = x"
| "join sep (x # y # ys) = x @ sep @ join sep (y # ys)"

section \<open>Mention resolver (channels/signal.ts)\<close>

text \<open>One mention descriptor \<open>{start, length, number, name}\<close>, each field at the type the
  code casts it to; \<open>length\<close>, \<open>number\<close> and \<open>name\<close> may be absent.\<close>

record Mention =
  m_start :: int
  m_length :: "int option"
  m_number :: "jstring option"
  m_name :: "jstring option"

text \<open>The constants of \<open>config.ts\<close> that the resolver reads.\<close>

record config =
  ASSISTANT_NAME :: jstring
  SIGNAL_PHONE_NUMBER :: jstring
  SIGNAL_CLI_DIR :: jstring

definition mention_name :: "config \<Rightarrow> Mention \<Rightarrow> jstring" where
  "mention_name cfg m =
     (if m_number m = Some (SIGNAL_PHONE_NUMBER cfg) then ASSISTANT_NAME cfg
      else or_default (or_else (m_name m) (m_number m)) (js ''unknown''))"

text \<open>The body of \<open>for (const mention of sorted)\<close>.\<close>

definition replace_mention :: "config \<Rightarrow> jstring \<Rightarrow> Mention \<Rightarrow> jstring" where
  "replace_mention cfg result m =
     (let start = m_start m;
          len = (case m_length m of None \<Rightarrow> 1 | Some l \<Rightarrow> if l = 0 then 1 else l) in
      slice result 0 start @ [64] @ mention_name cfg m @ slice_from result (start + len))"

text \<open>\<open>[...mentions].sort((a, b) => b.start - a.start)\<close>: a stable sort, descending by
  \<open>start\<close>, followed by the loop.\<close>

definition apply_mentions :: "config \<Rightarrow> jstring \<Rightarrow> Mention list \<Rightarrow> jstring" where
  "apply_mentions cfg t ms = foldl (replace_mention cfg) t (sort_key (\<lambda>m. - m_start m) ms)"

text \<open>\<open>result.replace(/\uFFFC/g, `@${ASSISTANT_NAME}`)\<close>; the replacement is inserted as it
  is, which is what \<open>replace\<close> does for a name without \<open>$\<close>.\<close>

definition sweep :: "config \<Rightarrow> jstring \<Rightarrow> jstring" where
  "sweep cfg s = concat (map (\<lambda>c. if c = 65532 then 64 # ASSISTANT_NAME cfg else [c]) s)"

text \<open>The current \<open>resolveMentions\<close> (channels/signal.ts).\<close>

definition resolveMentions :: "config \<Rightarrow> jstring option \<Rightarrow> Mention list option \<Rightarrow> jstring option" where
  "resolveMentions cfg t mentions =
     (case t of
        None \<Rightarrow> None
      | Some tx \<Rightarrow>
          if tx = [] then Some tx
          else (let result = (case mentions of
                                None \<Rightarrow> tx
                              | Some ms \<Rightarrow> if 0 < length ms then apply_mentions cfg tx ms else tx) in
                if 65532 \<in> set result then Some (sweep cfg result) else Some result))"

text \<open>The earlier \<open>resolveMentions\<close>, which has no fallback sweep.\<close>

definition resolveMentions_old :: "config \<Rightarrow> jstring option \<Rightarrow> Mention list option \<Rightarrow> jstring option" where
  "resolveMentions_old cfg t mentions =
     (case t of
        None \<Rightarrow> None
      | Some tx \<Rightarrow>
          if tx = [] then Some tx
          else (case mentions of
                  None \<Rightarrow> Some tx
                | Some ms \<Rightarrow> if length ms = 0 then Some tx else Some (apply_mentions cfg tx ms)))"

section \<open>RPC transport: \<open>rpcCall\<close>\<close>

definition MAX_PENDING_RPC :: nat where
  "MAX_PENDING_RPC = 100"

definition MAX_OUTGOING_QUEUE :: nat where
  "MAX_OUTGOING_QUEUE = 1000"

datatype rpc_error = CapExceeded | NotWritable

text \<open>
  A request \<open>{jsonrpc: '2.0', method, id, params}\<close> as written to the subprocess's stdin.
  The id \<open>rpc-<n>\<close> is modelled by its number. The correlation table \<open>pendingRpc\<close>
  maps the id to the continuation of the call; the entry holds the method the
  continuation belongs to. \<open>timers\<close> lists the ids whose timeout is armed.
\<close>

record 'p request =
  rq_method :: jstring
  rq_id :: nat
  rq_params :: 'p

record 'p transport =
  rpcIdCounter :: nat
  pendingRpc :: "(nat \<times> jstring) list"
  timers :: "nat list"
  writable :: bool
  stdin :: "'p request list"

text \<open>\<open>Map.set\<close>, \<open>Map.delete\<close> and \<open>Map.size\<close> on the table, kept as an association
  list with one entry per key.\<close>

definition table_set :: "nat \<Rightarrow> jstring \<Rightarrow> (nat \<times> jstring) list \<Rightarrow> (nat \<times> jstring) list" where
  "table_set k v t = (if k \<in> fst ` set t then map (\<lambda>e. if fst e = k then (k, v) else e) t
                      else t @ [(k, v)])"

definition table_delete :: "nat \<Rightarrow> (nat \<times> jstring) list \<Rightarrow> (nat \<times> jstring) list" where
  "table_delete k t = filter (\<lambda>e. fst e \<noteq> k) t"

text \<open>
  The synchronous body of the promise executor of \<open>rpcCall\<close>: \<open>Inl\<close> is an immediate
  rejection, \<open>Inr id\<close> a call left pending under \<open>id\<close>.
\<close>

definition rpcCall :: "'p transport \<Rightarrow> jstring \<Rightarrow> 'p \<Rightarrow> (rpc_error + nat) \<times> 'p transport" where
  "rpcCall t method params =
     (if MAX_PENDING_RPC \<le> length (pendingRpc t) then (Inl CapExceeded, t)
      else (let i = rpcIdCounter t + 1;
                t1 = t\<lparr>rpcIdCounter := i, timers := timers t @ [i],
                        pendingRpc := table_set i method (pendingRpc t)\<rparr> in
            if \<not> writable t1
            then (Inl NotWritable,
                  t1\<lparr>timers := removeAll i (timers t1), pendingRpc := table_delete i (pendingRpc t1)\<rparr>)
            else (Inr i, t1\<lparr>stdin := stdin t1 @ [\<lparr>rq_method = method, rq_id = i, rq_params = params\<rparr>]\<rparr>)))"

section \<open>Outbound delivery queue\<close>

record QueuedOutbound =
  q_jid :: jstring
  q_text :: jstring
  q_attachments :: "jstring list option"

record channel =
  connected :: bool
  flushing :: bool
  outgoingQueue :: "QueuedOutbound list"

text \<open>
  \<open>if (this.outgoingQueue.length >= MAX_OUTGOING_QUEUE) this.outgoingQueue.shift();
  this.outgoingQueue.push(item)\<close>, the code of both enqueueing branches of
  \<open>sendMessage\<close>. \<open>shift\<close> removes the first element (and does nothing on an empty
  array).
\<close>

definition shift :: "'a list \<Rightarrow> 'a list" where
  "shift q = (case q of [] \<Rightarrow> [] | x # xs \<Rightarrow> xs)"

definition enqueue :: "QueuedOutbound list \<Rightarrow> QueuedOutbound \<Rightarrow> QueuedOutbound list" where
  "enqueue q item = (if MAX_OUTGOING_QUEUE \<le> length q then shift q else q) @ [item]"

text \<open>
  \<open>sendMessage\<close>. \<open>sent\<close> tells whether the awaited \<open>rpcSend\<close> resolved; it is read only
  when the channel is connected. The \<open>catch\<close> block runs without another suspension
  point, on the queue as it is then.
\<close>

definition sendMessage :: "channel \<Rightarrow> QueuedOutbound \<Rightarrow> bool \<Rightarrow> channel" where
  "sendMessage ch item sent =
     (if \<not> connected ch then ch\<lparr>outgoingQueue := enqueue (outgoingQueue ch) item\<rparr>
      else if sent then ch
      else ch\<lparr>outgoingQueue := enqueue (outgoingQueue ch) item\<rparr>)"

text \<open>One iteration of the loop of \<open>flushOutgoingQueue\<close>, \<open>disconnect\<close>, and the
  assignment \<open>this.connected = true\<close> of \<open>connect\<close>.\<close>

definition flush_next :: "channel \<Rightarrow> channel" where
  "flush_next ch = ch\<lparr>outgoingQueue := shift (outgoingQueue ch)\<rparr>"

definition disconnect :: "channel \<Rightarrow> channel" where
  "disconnect ch = ch\<lparr>connected := False, flushing := False, outgoingQueue := []\<rparr>"

definition connect_ok :: "channel \<Rightarrow> channel" where
  "connect_ok ch = ch\<lparr>connected := True\<rparr>"

definition exit_seen :: "channel \<Rightarrow> channel" where
  "exit_seen ch = (if connected ch then ch\<lparr>connected := False\<rparr> else ch)"

datatype op = Send QueuedOutbound bool | FlushNext | Disconnect | Connected | Exited

fun step :: "channel \<Rightarrow> op \<Rightarrow> channel" where
  "step ch (Send item sent) = sendMessage ch item sent"
| "step ch FlushNext = flush_next ch"
| "step ch Disconnect = disconnect ch"
| "step ch Connected = connect_ok ch"
| "step ch Exited = exit_seen ch"

definition initial :: channel where
  "initial = \<lparr>connected = False, flushing = False, outgoingQueue = []\<rparr>"

definition run :: "op list \<Rightarrow> channel" where
  "run ops = foldl step initial ops"


section \<open>Envelope decoder (channels/signal.ts)\<close>

subsection \<open>The wire payloads\<close>

text \<open>
  The fields that \<open>handleEnvelope\<close> and \<open>processMessage\<close> read, each at the type the
  code casts it to; an absent (or \<open>null\<close>) field is \<open>None\<close>. A field name carries a prefix
  where two payloads use the same name.
\<close>

record GroupInfo =
  groupId :: "jstring option"
  groupName :: "jstring option"

record RawAttachment =
  ra_id :: "jstring option"
  ra_contentType :: "jstring option"
  ra_filename :: "jstring option"
  ra_size :: "int option"

record RawQuote =
  authorNumber :: "jstring option"
  authorUuid :: "jstring option"
  rq_author :: "jstring option"
  rq_text :: "jstring option"

record RawReaction =
  rr_emoji :: "jstring option"
  isRemove :: "bool option"
  targetAuthorNumber :: "jstring option"
  targetAuthorUuid :: "jstring option"
  rr_targetAuthor :: "jstring option"
  targetSentTimestamp :: "int option"

record DataMessage =
  dm_message :: "jstring option"
  dm_mentions :: "Mention list option"
  dm_groupInfo :: "GroupInfo option"
  dm_attachments :: "RawAttachment list option"
  dm_quote :: "RawQuote option"
  dm_reaction :: "RawReaction option"

record SentMessage = DataMessage +
  destinationNumber :: "jstring option"
  destinationUuid :: "jstring option"
  destination :: "jstring option"
  sm_timestamp :: "int option"

text \<open>\<open>syncMessage\<close> holds the \<open>sentMessage\<close> field of \<open>envelope.syncMessage\<close> when that
  object is present.\<close>

record Envelope =
  sourceNumber :: "jstring option"
  sourceUuid :: "jstring option"
  source :: "jstring option"
  env_sourceName :: "jstring option"
  env_timestamp :: "int option"
  dataMessage :: "DataMessage option"
  syncMessage :: "SentMessage option option"

subsection \<open>The records handed to the message handler\<close>

record Attachment =
  contentType :: jstring
  filename :: "jstring option"
  hostPath :: jstring
  containerPath :: jstring
  att_size :: "int option"

record Quote =
  author :: jstring
  quote_text :: jstring

record Reaction =
  emoji :: jstring
  targetAuthor :: jstring
  targetTimestamp :: jstring

record NewMessage =
  msg_id :: jstring
  chat_jid :: jstring
  sender :: jstring
  sender_name :: jstring
  content :: jstring
  timestamp :: jstring
  is_from_me :: bool
  is_bot_message :: bool
  attachments :: "Attachment list option"
  quote :: "Quote option"
  reaction :: "Reaction option"

text \<open>The argument of \<open>processMessage\<close>.\<close>

record Msg =
  sourceId :: "jstring option"
  sourceName :: jstring
  msg_timestamp :: "int option"
  message :: "jstring option"
  groupInfo :: "GroupInfo option"
  isFromMe :: bool
  rawAttachments :: "RawAttachment list option"
  rawQuote :: "RawQuote option"
  rawReaction :: "RawReaction option"

subsection \<open>Collaborators\<close>

text \<open>What \<open>transcribeAudioFile\<close> does: it resolves with a transcript, resolves with
  \<open>null\<close>, or rejects.\<close>

datatype transcription = Transcript jstring | NoTranscript | TranscribeFailed

text \<open>
  The configuration together with everything the decoder reads from outside the
  module: the sender-name table of \<open>db.ts\<close>, the registered groups, the listing of the
  attachments directory (\<open>None\<close> when \<open>readdirSync\<close> throws), \<open>path.join\<close>, the
  transcriber of \<open>media.ts\<close>, the clock at the two places where the code reads it, and
  the runtime's \<open>Date.prototype.toISOString\<close>, \<open>String.prototype.toLowerCase\<close> and
  number-to-string conversion.
\<close>

record world = config +
  lookupSenderName :: "jstring \<Rightarrow> jstring option"
  registeredGroups :: "jstring \<Rightarrow> bool"
  readdirSync :: "jstring \<Rightarrow> jstring list option"
  path_join :: "jstring \<Rightarrow> jstring \<Rightarrow> jstring"
  transcribeAudioFile :: "jstring \<Rightarrow> transcription"
  now_decode :: int
  now_forward :: int
  toISOString :: "int \<Rightarrow> jstring"
  toLowerCase :: "jstring \<Rightarrow> jstring"
  numToString :: "int \<Rightarrow> jstring"

text \<open>
  The calls the decoder makes on its collaborators, in the order it makes them:
  \<open>this.rpcSend(jid, text)\<close>, \<open>opts.onChatMetadata\<close>, \<open>transcribeAudioFile\<close>,
  \<open>optimizeImageForVision\<close> and \<open>opts.onMessage\<close>.
\<close>

datatype event =
    RpcSend jstring jstring
  | ChatMetadata jstring jstring "jstring option" jstring bool
  | Transcribe jstring
  | OptimizeImage jstring
  | OnMessage jstring NewMessage

text \<open>How the promise of \<open>processMessage\<close> settles: \<open>Rejected\<close> when an exception leaves
  the function.\<close>

datatype completion = Resolved | Rejected

subsection \<open>\<open>processMessage\<close>\<close>

text \<open>\<open>new Date(t).toISOString()\<close> throws a RangeError (here \<open>None\<close>) outside the range
  of time values.\<close>

definition date_iso :: "'a world_scheme \<Rightarrow> int \<Rightarrow> jstring option" where
  "date_iso w t = (if - 8640000000000000 \<le> t \<and> t \<le> 8640000000000000
                   then Some (toISOString w t) else None)"

text \<open>A number is truthy when it is present and not zero.\<close>

definition truthy_num :: "int option \<Rightarrow> bool" where
  "truthy_num t = (case t of None \<Rightarrow> False | Some n \<Rightarrow> n \<noteq> 0)"

text \<open>"Determine JID": the chat identity and the group flag, \<open>None\<close> at the early
  \<open>return\<close>.\<close>

definition chat_identity :: "Msg \<Rightarrow> (jstring \<times> bool) option" where
  "chat_identity msg =
     (let gid = (case groupInfo msg of None \<Rightarrow> None | Some g \<Rightarrow> groupId g) in
      if truthy gid then Some (js ''signal:'' @ or_default gid [], True)
      else if truthy (sourceId msg) then Some (js ''signal:'' @ or_default (sourceId msg) [], False)
      else None)"

definition is_chatid_command :: "'a world_scheme \<Rightarrow> jstring option \<Rightarrow> bool" where
  "is_chatid_command w m =
     (case m of None \<Rightarrow> False
      | Some s \<Rightarrow> s \<noteq> [] \<and> toLowerCase w (trim s) = js ''/chatid'')"

text \<open>The body of \<open>for (const att of msg.rawAttachments)\<close>: \<open>None\<close> at a \<open>continue\<close>.\<close>

definition build_attachment :: "'a world_scheme \<Rightarrow> jstring \<Rightarrow> RawAttachment \<Rightarrow> Attachment option" where
  "build_attachment w attachmentsDir att =
     (case ra_id att of
        None \<Rightarrow> None
      | Some i \<Rightarrow>
          if i = [] then None
          else (case readdirSync w attachmentsDir of
                  None \<Rightarrow> None
                | Some files \<Rightarrow>
                    (case find (\<lambda>f. startsWith f i) files of
                       None \<Rightarrow> None
                     | Some match \<Rightarrow>
                         if match = [] \<or> path_join w attachmentsDir match = [] then None
                         else Some \<lparr>contentType = or_default (ra_contentType att) (js ''application/octet-stream''),
                                    filename = or_else (ra_filename att) (Some match),
                                    hostPath = path_join w attachmentsDir match,
                                    containerPath = js ''/workspace/signal-attachments/'' @ match,
                                    att_size = ra_size att\<rparr>)))"

definition build_attachments :: "'a world_scheme \<Rightarrow> RawAttachment list option \<Rightarrow> Attachment list option" where
  "build_attachments w raw =
     (case raw of
        None \<Rightarrow> None
      | Some atts \<Rightarrow>
          if SIGNAL_CLI_DIR w = [] then None
          else (let built = List.map_filter
                              (build_attachment w (path_join w (SIGNAL_CLI_DIR w) (js ''attachments''))) atts in
                if 0 < length built then Some built else None))"

definition build_quote :: "'a world_scheme \<Rightarrow> RawQuote \<Rightarrow> Quote" where
  "build_quote w rq =
     (let quoteAuthorId = or_default (or_else (or_else (authorNumber rq) (authorUuid rq)) (rq_author rq))
                            (js ''unknown'') in
      \<lparr>author = or_default (lookupSenderName w quoteAuthorId) quoteAuthorId,
       quote_text = or_default (rq_text rq) []\<rparr>)"

text \<open>"Build reaction": the outer \<open>None\<close> is the RangeError of \<open>toISOString\<close>.\<close>

definition build_reaction :: "'a world_scheme \<Rightarrow> RawReaction option \<Rightarrow> Reaction option option" where
  "build_reaction w raw =
     (case raw of
        None \<Rightarrow> Some None
      | Some r \<Rightarrow>
          if truthy (rr_emoji r) \<and> \<not> (isRemove r = Some True) then
            (let ta = or_default (or_else (or_else (targetAuthorNumber r) (targetAuthorUuid r)) (rr_targetAuthor r))
                        (js ''unknown'') in
             if truthy_num (targetSentTimestamp r) then
               (case date_iso w (case targetSentTimestamp r of Some t \<Rightarrow> t | None \<Rightarrow> 0) of
                  None \<Rightarrow> None
                | Some tiso \<Rightarrow> Some (Some \<lparr>emoji = or_default (rr_emoji r) [], targetAuthor = ta,
                                           targetTimestamp = tiso\<rparr>))
             else Some (Some \<lparr>emoji = or_default (rr_emoji r) [], targetAuthor = ta, targetTimestamp = []\<rparr>))
          else Some None)"

text \<open>The quote line of the content string, with its snippet cut at 100 code units.\<close>

definition quote_snippet :: "jstring \<Rightarrow> jstring" where
  "quote_snippet t = (if 100 < length t then slice t 0 100 @ js ''...'' else t)"

definition quote_part :: "Quote \<Rightarrow> jstring" where
  "quote_part q = js ''[replying to '' @ author q @ js '': '' @ quote_snippet (quote_text q) @ js '']''"

definition reaction_part :: "Reaction \<Rightarrow> jstring" where
  "reaction_part r = js ''[reacted '' @ emoji r @ js '' to message from '' @ targetAuthor r @ js '']''"

text \<open>
  The body of \<open>for (const att of attachments)\<close>: the part pushed, the attachment kept
  (if any), and the collaborators called.
\<close>

definition attachment_step :: "'a world_scheme \<Rightarrow> Attachment \<Rightarrow> jstring \<times> Attachment option \<times> event list" where
  "attachment_step w att =
     (let audio = startsWith (contentType att) (js ''audio/'');
          image = startsWith (contentType att) (js ''image/'');
          label = or_default (filename att) (contentType att);
          keep = (js ''[attachment: '' @ label @ [32, 8594, 32] @ containerPath att @ js '']'', Some att,
                  (if audio then [Transcribe (hostPath att)] else [])
                  @ (if image then [OptimizeImage (hostPath att)] else [])) in
      if audio then
        (case transcribeAudioFile w (hostPath att) of
           Transcript t \<Rightarrow>
             if t \<noteq> [] then ([64] @ ASSISTANT_NAME w @ js '' [Voice: '' @ t @ js '']'', None,
                               [Transcribe (hostPath att)])
             else keep
         | _ \<Rightarrow> keep)
      else keep)"

text \<open>
  The part of \<open>processMessage\<close> after the registration check: the attachments, the
  quote, the reaction, the content string and the call of \<open>opts.onMessage\<close>.
\<close>

definition content_parts :: "Msg \<Rightarrow> Quote option \<Rightarrow> Reaction option \<Rightarrow> jstring list \<Rightarrow> jstring list" where
  "content_parts msg q r attachment_parts =
     (if truthy (message msg) then [or_default (message msg) []] else [])
     @ (case q of None \<Rightarrow> [] | Some qu \<Rightarrow> [quote_part qu])
     @ (case r of None \<Rightarrow> [] | Some re \<Rightarrow> [reaction_part re])
     @ attachment_parts"

definition deliver :: "'a world_scheme \<Rightarrow> Msg \<Rightarrow> jstring \<Rightarrow> jstring \<Rightarrow> event list \<times> completion" where
  "deliver w msg chatJid isoTimestamp =
     (let built = build_attachments w (rawAttachments msg);
          q = map_option (build_quote w) (rawQuote msg) in
      case build_reaction w (rawReaction msg) of
        None \<Rightarrow> ([], Rejected)
      | Some r \<Rightarrow>
         (let steps = (case built of None \<Rightarrow> [] | Some atts \<Rightarrow> map (attachment_step w) atts);
              kept = List.map_filter (\<lambda>s. fst (snd s)) steps;
              calls = concat (map (\<lambda>s. snd (snd s)) steps);
              c = join [10] (content_parts msg q r (map fst steps)) in
          if trim c = [] then (calls, Resolved)
          else (calls @
                [OnMessage chatJid
                   \<lparr>msg_id = js ''signal-'' @ numToString w
                               (if truthy_num (msg_timestamp msg)
                                then (case msg_timestamp msg of Some t \<Rightarrow> t | None \<Rightarrow> 0)
                                else now_forward w),
                    chat_jid = chatJid,
                    sender = or_default (sourceId msg) [],
                    sender_name = sourceName msg,
                    content = c,
                    timestamp = isoTimestamp,
                    is_from_me = isFromMe msg,
                    is_bot_message = isFromMe msg,
                    attachments = (case built of None \<Rightarrow> None
                                   | Some atts \<Rightarrow> if 0 < length kept then Some kept else None),
                    quote = q,
                    reaction = r\<rparr>], Resolved)))"

definition processMessage :: "'a world_scheme \<Rightarrow> Msg \<Rightarrow> event list \<times> completion" where
  "processMessage w msg =
     (case chat_identity msg of
        None \<Rightarrow> ([], Resolved)
      | Some (chatJid, isGroup) \<Rightarrow>
         (case (if truthy_num (msg_timestamp msg)
                then date_iso w (case msg_timestamp msg of Some t \<Rightarrow> t | None \<Rightarrow> 0)
                else Some (toISOString w (now_decode w))) of
            None \<Rightarrow> ([], Rejected)
          | Some isoTimestamp \<Rightarrow>
             if is_chatid_command w (message msg)
             then ([RpcSend chatJid (js ''Chat ID: '' @ chatJid)], Resolved)
             else
               (let meta = ChatMetadata chatJid isoTimestamp
                             (case groupInfo msg of None \<Rightarrow> None | Some g \<Rightarrow> groupName g)
                             (js ''signal'') isGroup in
                if \<not> registeredGroups w chatJid then ([meta], Resolved)
                else (meta # fst (deliver w msg chatJid isoTimestamp),
                      snd (deliver w msg chatJid isoTimestamp)))))"

subsection \<open>\<open>handleEnvelope\<close>\<close>

definition handleEnvelope :: "'a world_scheme \<Rightarrow> Envelope \<Rightarrow> event list \<times> completion" where
  "handleEnvelope w envelope =
     (let srcUuid = or_else (sourceUuid envelope) (source envelope);
          srcId = or_else (sourceNumber envelope) srcUuid;
          srcName = or_default (or_else (env_sourceName envelope) srcId) (js ''Unknown'') in
      case dataMessage envelope of
        Some dm \<Rightarrow>
          processMessage w
            \<lparr>sourceId = srcId, sourceName = srcName, msg_timestamp = env_timestamp envelope,
             message = resolveMentions (config.truncate w) (dm_message dm) (dm_mentions dm),
             groupInfo = dm_groupInfo dm, isFromMe = False,
             rawAttachments = dm_attachments dm, rawQuote = dm_quote dm,
             rawReaction = dm_reaction dm\<rparr>
      | None \<Rightarrow>
         (case syncMessage envelope of
            Some (Some sm) \<Rightarrow>
              (let destUuid = or_else (destinationUuid sm) (destination sm);
                   chatId = or_else (or_else (destinationNumber sm) destUuid) srcId in
               processMessage w
                 \<lparr>sourceId = chatId, sourceName = srcName,
                  msg_timestamp = (case sm_timestamp sm of Some t \<Rightarrow> Some t | None \<Rightarrow> env_timestamp envelope),
                  message = resolveMentions (config.truncate w) (dm_message sm) (dm_mentions sm),
                  groupInfo = dm_groupInfo sm, isFromMe = True,
                  rawAttachments = dm_attachments sm, rawQuote = dm_quote sm,
                  rawReaction = dm_reaction sm\<rparr>)
          | _ \<Rightarrow> ([], Resolved)))"


text \<open>The messages handed to \<open>opts.onMessage\<close> among the calls of a run of the decoder.\<close>

definition forwarded :: "event list \<Rightarrow> NewMessage list" where
  "forwarded evs = List.map_filter (\<lambda>e. case e of OnMessage j m \<Rightarrow> Some m | _ \<Rightarrow> None) evs"

section \<open>Notions used by the statements\<close>

text \<open>The text after the descriptor-based replacement of \<open>resolveMentions\<close>, before any
  fallback sweep.\<close>

definition descriptor_replaced :: "config \<Rightarrow> jstring \<Rightarrow> Mention list option \<Rightarrow> jstring" where
  "descriptor_replaced cfg tx mentions =
     (case mentions of None \<Rightarrow> tx | Some ms \<Rightarrow> apply_mentions cfg tx ms)"

text \<open>The reaction of the payload that \<open>handleEnvelope\<close> decodes: that of
  \<open>dataMessage\<close> when the envelope has one, else that of \<open>syncMessage.sentMessage\<close>.\<close>

definition payload_reaction :: "Envelope \<Rightarrow> RawReaction option" where
  "payload_reaction e =
     (case dataMessage e of
        Some dm \<Rightarrow> dm_reaction dm
      | None \<Rightarrow> (case syncMessage e of Some (Some sm) \<Rightarrow> dm_reaction sm | _ \<Rightarrow> None))"

text \<open>The characters that open or close a marker.\<close>

definition marker_char :: "nat \<Rightarrow> bool" where
  "marker_char c = (c = 96 \<or> c = 124 \<or> c = 126 \<or> c = 42 \<or> c = 95)"

text \<open>The indices of the input that a match covers, delimiters and content.\<close>

definition span_indices :: "MarkerMatch \<Rightarrow> nat set" where
  "span_indices m = {openStart m..<closeEnd m}"

text \<open>
  Three properties of the state of the collecting loop: every index of a code span is
  claimed (as marker or as protected content); no code span shares an index with a
  match of another style; only code spans have been collected.
\<close>

definition code_claimed :: "cstate \<Rightarrow> bool" where
  "code_claimed st = (\<forall>m \<in> set (matches st). style m = MONOSPACE \<longrightarrow>
                        span_indices m \<subseteq> markers st \<union> protected st)"

definition code_untouched :: "cstate \<Rightarrow> bool" where
  "code_untouched st = (\<forall>m \<in> set (matches st). \<forall>m' \<in> set (matches st).
                          style m = MONOSPACE \<and> style m' \<noteq> MONOSPACE \<longrightarrow>
                          span_indices m \<inter> span_indices m' = {})"

definition only_code :: "cstate \<Rightarrow> bool" where
  "only_code st = (\<forall>m \<in> set (matches st). style m = MONOSPACE)"

text \<open>The output of the stripping loop as a recursion over the input: \<open>strip mk k s\<close> drops
  the characters of \<open>s\<close> whose index, counted from \<open>k\<close>, is in \<open>mk\<close>.\<close>

fun strip :: "nat set \<Rightarrow> nat \<Rightarrow> jstring \<Rightarrow> jstring" where
  "strip mk k [] = []"
| "strip mk k (c # cs) = (if k \<in> mk then strip mk (Suc k) cs else c # strip mk (Suc k) cs)"

section \<open>Example inputs\<close>

definition full_transport :: "unit transport" where
  "full_transport = \<lparr>rpcIdCounter = 100, pendingRpc = map (\<lambda>i. (i, js ''send'')) [1..<101],
                      timers = [1..<101], writable = True, stdin = []\<rparr>"

definition full_queue :: "QueuedOutbound list" where
  "full_queue = map (\<lambda>i. \<lparr>q_jid = js ''signal:+15550001'', q_text = [i], q_attachments = None\<rparr>) [0..<1000]"

definition newest :: QueuedOutbound where
  "newest = \<lparr>q_jid = js ''signal:+15550001'', q_text = js ''new'', q_attachments = None\<rparr>"

definition example_config :: config where
  "example_config = \<lparr>ASSISTANT_NAME = js ''Echo'', SIGNAL_PHONE_NUMBER = js ''+15550000'',
                      SIGNAL_CLI_DIR = js ''/data/signal-cli''\<rparr>"

definition bob_mention :: Mention where
  "bob_mention = \<lparr>m_start = 0, m_length = Some 1, m_number = Some (js ''+15551111''),
                   m_name = Some (js ''Bob'')\<rparr>"

text \<open>
  A world for the examples: every conversation is registered, the attachments directory
  is empty, no sender name is known, case folding is that of ASCII, and the clock and
  the date and number formatting are fixed at one instant.
\<close>

definition ascii_lower :: "jstring \<Rightarrow> jstring" where
  "ascii_lower s = map (\<lambda>c. if 65 \<le> c \<and> c \<le> 90 then c + 32 else c) s"

definition example_world :: world where
  "example_world =
     \<lparr>ASSISTANT_NAME = js ''Echo'', SIGNAL_PHONE_NUMBER = js ''+15550000'',
      SIGNAL_CLI_DIR = js ''/data/signal-cli'',
      lookupSenderName = (\<lambda>i. None), registeredGroups = (\<lambda>j. True),
      readdirSync = (\<lambda>d. Some []), path_join = (\<lambda>a b. a @ [47] @ b),
      transcribeAudioFile = (\<lambda>p. NoTranscript),
      now_decode = 1700000000000, now_forward = 1700000000001,
      toISOString = (\<lambda>t. js ''2023-11-14T22:13:20.000Z''),
      toLowerCase = ascii_lower,
      numToString = (\<lambda>n. js ''1700000000000'')\<rparr>"

text \<open>An echo of a message sent to the peer +15552222 from another linked device, the
  same echo sent to a group, and the same echo without any destination.\<close>

definition echo_payload :: SentMessage where
  "echo_payload =
     \<lparr>dm_message = Some (js ''on my way''), dm_mentions = None, dm_groupInfo = None,
      dm_attachments = None, dm_quote = None, dm_reaction = None,
      destinationNumber = Some (js ''+15552222''), destinationUuid = None, destination = None,
      sm_timestamp = Some 1700000000000\<rparr>"

definition echo_envelope :: "SentMessage \<Rightarrow> Envelope" where
  "echo_envelope sm =
     \<lparr>sourceNumber = Some (js ''+15550000''), sourceUuid = None, source = None,
      env_sourceName = Some (js ''Me''), env_timestamp = Some 1700000000000,
      dataMessage = None, syncMessage = Some (Some sm)\<rparr>"

definition echo_direct :: Envelope where
  "echo_direct = echo_envelope echo_payload"

definition echo_group :: Envelope where
  "echo_group = echo_envelope
     (echo_payload\<lparr>dm_groupInfo := Some \<lparr>groupId = Some (js ''R3JvdXA=''), groupName = Some (js ''Family'')\<rparr>,
                   destinationNumber := None\<rparr>)"

definition echo_no_destination :: Envelope where
  "echo_no_destination = echo_envelope (echo_payload\<lparr>destinationNumber := None\<rparr>)"

text \<open>Messages from the peer +15552222: a reply that quotes 150 letters, the discovery
  command, and a text that comes with the removal of a reaction.\<close>

definition peer_msg :: "jstring \<Rightarrow> Msg" where
  "peer_msg body =
     \<lparr>sourceId = Some (js ''+15552222''), sourceName = js ''Bob'', msg_timestamp = Some 1700000000000,
      message = Some body, groupInfo = None, isFromMe = False,
      rawAttachments = None, rawQuote = None, rawReaction = None\<rparr>"

definition long_quote :: RawQuote where
  "long_quote = \<lparr>authorNumber = Some (js ''+15550000''), authorUuid = None, rq_author = None,
                  rq_text = Some (replicate 150 97)\<rparr>"

definition quoting_msg :: Msg where
  "quoting_msg = (peer_msg (js ''agreed''))\<lparr>rawQuote := Some long_quote\<rparr>"

definition chatid_msg :: Msg where
  "chatid_msg = peer_msg (js '' /ChatID '')"

text \<open>An envelope that names no source and no group, with the discovery command as its
  body.\<close>

definition anonymous_chatid :: Envelope where
  "anonymous_chatid =
     \<lparr>sourceNumber = None, sourceUuid = None, source = None,
      env_sourceName = None, env_timestamp = Some 1700000000000,
      dataMessage = Some \<lparr>dm_message = Some (js ''/chatid''), dm_mentions = None, dm_groupInfo = None,
                           dm_attachments = None, dm_quote = None, dm_reaction = None\<rparr>,
      syncMessage = None\<rparr>"

definition removal :: RawReaction where
  "removal = \<lparr>rr_emoji = Some [55357, 56397], isRemove = Some True,
               targetAuthorNumber = Some (js ''+15550000''), targetAuthorUuid = None,
               rr_targetAuthor = None, targetSentTimestamp = Some 1699999999000\<rparr>"

definition removal_envelope :: Envelope where
  "removal_envelope =
     \<lparr>sourceNumber = Some (js ''+15552222''), sourceUuid = None, source = None,
      env_sourceName = Some (js ''Bob''), env_timestamp = Some 1700000000000,
      dataMessage = Some \<lparr>dm_message = Some (js ''never mind''), dm_mentions = None, dm_groupInfo = None,
                           dm_attachments = None, dm_quote = None, dm_reaction = Some removal\<rparr>,
      syncMessage = None\<rparr>"

section \<open>RPC transport: the pending-call cap\<close>

text \<open>The table keeps one entry per id, so its length is the \<open>size\<close> of the map; and
  below the cap, on a writable stdin, a call registers its id and writes one request.\<close>

lemma table_set_distinct:
  "distinct (map fst t) \<Longrightarrow> distinct (map fst (table_set k v t))"
proof (cases "k \<in> fst ` set t")
  case True
  have "map fst (map (\<lambda>e. if fst e = k then (k, v) else e) t) = map fst t"
    by (induction t) auto
  moreover assume "distinct (map fst t)"
  ultimately show ?thesis using True by (simp add: table_set_def del: map_map)
next
  case False
  moreover assume "distinct (map fst t)"
  ultimately show ?thesis by (simp add: table_set_def)
qed

lemma rpcCall_distinct:
  "distinct (map fst (pendingRpc t)) \<Longrightarrow>
     distinct (map fst (pendingRpc (snd (rpcCall t method params))))"
  by (simp add: rpcCall_def Let_def table_set_distinct table_delete_def distinct_map_filter)

lemma rpcCall_below_cap:
  assumes "length (pendingRpc t) < 100" and "writable t"
    and "rpcIdCounter t + 1 \<notin> fst ` set (pendingRpc t)"
  shows "rpcCall t method params
         = (Inr (rpcIdCounter t + 1),
            t\<lparr>rpcIdCounter := rpcIdCounter t + 1,
              timers := timers t @ [rpcIdCounter t + 1],
              pendingRpc := pendingRpc t @ [(rpcIdCounter t + 1, method)],
              stdin := stdin t @ [\<lparr>rq_method = method, rq_id = rpcIdCounter t + 1,
                                    rq_params = params\<rparr>]\<rparr>)"
  using assms by (simp add: rpcCall_def Let_def MAX_PENDING_RPC_def table_set_def)

text \<open>
  C2. A call issued while 100 calls are pending rejects at once with the cap error;
  nothing is written to the subprocess's stdin and the correlation table (like the rest
  of the transport state) is unchanged.
\<close>

theorem rpcCall_at_cap:
  "length (pendingRpc t) = 100 \<Longrightarrow>
     rpcCall t method params = (Inl CapExceeded, t)
     \<and> stdin (snd (rpcCall t method params)) = stdin t
     \<and> pendingRpc (snd (rpcCall t method params)) = pendingRpc t"
  by (simp add: rpcCall_def MAX_PENDING_RPC_def)

theorem rpcCall_at_cap_witness:
  "length (pendingRpc full_transport) = 100
   \<and> rpcCall full_transport (js ''send'') () = (Inl CapExceeded, full_transport)"
  using rpcCall_at_cap [of full_transport "js ''send''" "()"]
  by (simp add: full_transport_def)

section \<open>Outbound delivery queue: drop-oldest\<close>

lemma length_shift: "length (shift q) = length q - 1"
  by (cases q) (simp_all add: shift_def)

lemma length_enqueue_le: "length q \<le> 1000 \<Longrightarrow> length (enqueue q item) \<le> 1000"
  by (simp add: enqueue_def MAX_OUTGOING_QUEUE_def length_shift)

lemma step_bounded:
  "length (outgoingQueue ch) \<le> 1000 \<Longrightarrow> length (outgoingQueue (step ch x)) \<le> 1000"
  by (cases x)
     (simp_all add: sendMessage_def flush_next_def disconnect_def connect_ok_def exit_seen_def
        length_enqueue_le length_shift)

lemma foldl_step_bounded:
  "length (outgoingQueue ch) \<le> 1000 \<Longrightarrow> length (outgoingQueue (foldl step ch ops)) \<le> 1000"
  by (induction ops arbitrary: ch) (simp_all add: step_bounded)

lemma hd_notin_tl: "distinct q \<Longrightarrow> q \<noteq> [] \<Longrightarrow> hd q \<notin> set (tl q)"
  by (cases q) auto

text \<open>
  C3. After any sequence of operations on the channel the queue holds at most 1000
  entries; and a \<open>sendMessage\<close> that enqueues (the channel is disconnected, or the send
  failed) onto a queue of 1000 entries leaves the queue without its first entry, the
  others in their order, followed by the new entry: 1000 entries again.
\<close>

theorem outgoingQueue_drop_oldest:
  "length (outgoingQueue (run ops)) \<le> 1000
   \<and> (length (outgoingQueue ch) = 1000 \<and> (connected ch \<longrightarrow> \<not> sent) \<longrightarrow>
        outgoingQueue (sendMessage ch item sent) = tl (outgoingQueue ch) @ [item]
        \<and> length (outgoingQueue (sendMessage ch item sent)) = 1000)"
proof
  show "length (outgoingQueue (run ops)) \<le> 1000"
    unfolding run_def by (rule foldl_step_bounded) (simp add: initial_def)
next
  show "length (outgoingQueue ch) = 1000 \<and> (connected ch \<longrightarrow> \<not> sent) \<longrightarrow>
        outgoingQueue (sendMessage ch item sent) = tl (outgoingQueue ch) @ [item]
        \<and> length (outgoingQueue (sendMessage ch item sent)) = 1000"
    by (cases "outgoingQueue ch")
       (auto simp: sendMessage_def enqueue_def MAX_OUTGOING_QUEUE_def shift_def)
qed

theorem outgoingQueue_drop_oldest_witness:
  "length full_queue = 1000
   \<and> outgoingQueue (sendMessage \<lparr>connected = False, flushing = False, outgoingQueue = full_queue\<rparr> newest True)
       = tl full_queue @ [newest]
   \<and> length (outgoingQueue (sendMessage \<lparr>connected = False, flushing = False, outgoingQueue = full_queue\<rparr> newest True)) = 1000
   \<and> hd full_queue \<notin> set (outgoingQueue (sendMessage \<lparr>connected = False, flushing = False, outgoingQueue = full_queue\<rparr> newest True))"
proof -
  have len: "length full_queue = 1000" by (simp add: full_queue_def)
  have "distinct full_queue"
    by (simp add: full_queue_def distinct_map inj_on_def)
  moreover have ne: "full_queue \<noteq> []" using len by auto
  ultimately have tl_free: "hd full_queue \<notin> set (tl full_queue)"
    by (rule hd_notin_tl)
  have "hd full_queue = \<lparr>q_jid = js ''signal:+15550001'', q_text = [0], q_attachments = None\<rparr>"
    by (simp add: full_queue_def hd_map)
  then have "hd full_queue \<noteq> newest"
    by (simp add: newest_def js_def)
  with tl_free have absent: "hd full_queue \<notin> set (tl full_queue @ [newest])" by simp
  from outgoingQueue_drop_oldest [of "[]" "\<lparr>connected = False, flushing = False, outgoingQueue = full_queue\<rparr>" True newest]
    len absent
  show ?thesis by simp
qed

section \<open>Mention resolver: the current and the earlier version\<close>

lemma apply_mentions_Nil: "apply_mentions cfg tx [] = tx"
  by (simp add: apply_mentions_def)

text \<open>
  C10. The current and the earlier \<open>resolveMentions\<close> return the same result on every
  input whose text is undefined, empty, or free of U+FFFC after the descriptor-based
  replacement.
\<close>

theorem resolveMentions_refines:
  "(case t of None \<Rightarrow> True | Some tx \<Rightarrow> tx = [] \<or> 65532 \<notin> set (descriptor_replaced cfg tx mentions))
   \<Longrightarrow> resolveMentions cfg t mentions = resolveMentions_old cfg t mentions"
  by (auto simp: resolveMentions_def resolveMentions_old_def descriptor_replaced_def apply_mentions_Nil
           split: option.splits)

theorem resolveMentions_refines_witness:
  "65532 \<notin> set (descriptor_replaced example_config (65532 # js '' hi'') (Some [bob_mention]))
   \<and> resolveMentions example_config (Some (65532 # js '' hi'')) (Some [bob_mention])
       = resolveMentions_old example_config (Some (65532 # js '' hi'')) (Some [bob_mention])
   \<and> resolveMentions_old example_config (Some (65532 # js '' hi'')) (Some [bob_mention])
       = Some (js ''@Bob hi'')"
proof -
  have r: "descriptor_replaced example_config (65532 # js '' hi'') (Some [bob_mention]) = js ''@Bob hi''"
    by (simp add: descriptor_replaced_def apply_mentions_def replace_mention_def mention_name_def
          example_config_def bob_mention_def slice_def slice_from_def js_index_def js_def
          or_default_def or_else_def truthy_def)
  then have h: "65532 \<notin> set (descriptor_replaced example_config (65532 # js '' hi'') (Some [bob_mention]))"
    by (simp add: js_def)
  have old: "resolveMentions_old example_config (Some (65532 # js '' hi'')) (Some [bob_mention])
               = Some (js ''@Bob hi'')"
    using r by (simp add: resolveMentions_old_def descriptor_replaced_def)
  from resolveMentions_refines [where t = "Some (65532 # js '' hi'')" and cfg = example_config
      and mentions = "Some [bob_mention]"] h old
  show ?thesis by simp
qed

section \<open>Envelope decoder: what is forwarded\<close>

lemma forwarded_Nil [simp]: "forwarded [] = []"
  by (simp add: forwarded_def map_filter_def)

lemma forwarded_append: "forwarded (xs @ ys) = forwarded xs @ forwarded ys"
  by (simp add: forwarded_def map_filter_def)

lemma forwarded_Cons:
  "forwarded (e # xs) = (case e of OnMessage j m \<Rightarrow> [m] | _ \<Rightarrow> []) @ forwarded xs"
  by (simp add: forwarded_def map_filter_def split: event.splits)

lemma attachment_step_calls:
  "e \<in> set (snd (snd (attachment_step w att))) \<Longrightarrow> (\<exists>p. e = Transcribe p \<or> e = OptimizeImage p)"
  by (auto simp: attachment_step_def Let_def split: transcription.splits if_splits)

lemma forwarded_none:
  "(\<And>e. e \<in> set xs \<Longrightarrow> \<not> (\<exists>j m. e = OnMessage j m)) \<Longrightarrow> forwarded xs = []"
  by (induction xs) (auto simp: forwarded_def map_filter_def split: event.splits)

lemma forwarded_steps:
  "forwarded (concat (map (\<lambda>s. snd (snd s)) (map (attachment_step w) atts))) = []"
  by (rule forwarded_none) (auto dest: attachment_step_calls)

lemma forwarded_steps':
  "forwarded (concat (map (\<lambda>s. snd (snd s)) (case b of None \<Rightarrow> [] | Some atts \<Rightarrow> map (attachment_step w) atts))) = []"
  by (cases b) (simp_all add: forwarded_steps del: map_map)

lemma forwarded_deliver:
  assumes "nm \<in> set (forwarded (fst (deliver w msg jid ts)))"
  shows "chat_jid nm = jid \<and> build_reaction w (rawReaction msg) = Some (reaction nm)
         \<and> quote nm = map_option (build_quote w) (rawQuote msg)
         \<and> (\<exists>att_parts. content nm = join [10] (content_parts msg (quote nm) (reaction nm) att_parts))"
proof (cases "build_reaction w (rawReaction msg)")
  case None
  with assms show ?thesis by (simp add: deliver_def Let_def)
next
  case (Some r)
  with assms show ?thesis
    by (auto simp: deliver_def Let_def forwarded_append forwarded_steps' forwarded_Cons split: if_splits)
qed

lemma forwarded_processMessage:
  assumes "nm \<in> set (forwarded (fst (processMessage w msg)))"
  shows "\<exists>g ts. chat_identity msg = Some (chat_jid nm, g) \<and> \<not> is_chatid_command w (message msg)
           \<and> nm \<in> set (forwarded (fst (deliver w msg (chat_jid nm) ts)))"
proof (cases "chat_identity msg")
  case None
  with assms show ?thesis by (simp add: processMessage_def)
next
  case (Some a)
  obtain jid g where a: "a = (jid, g)" by (cases a)
  show ?thesis
  proof (cases "if truthy_num (msg_timestamp msg)
                then date_iso w (case msg_timestamp msg of Some t \<Rightarrow> t | None \<Rightarrow> 0)
                else Some (toISOString w (now_decode w))")
    case None
    with assms Some a show ?thesis by (simp add: processMessage_def)
  next
    case (Some ts)
    have "\<not> is_chatid_command w (message msg) \<and> nm \<in> set (forwarded (fst (deliver w msg jid ts)))"
      using assms \<open>chat_identity msg = Some a\<close> a Some
      by (simp add: processMessage_def Let_def forwarded_Cons split: if_splits)
    moreover from this have "chat_jid nm = jid" using forwarded_deliver by blast
    ultimately show ?thesis using \<open>chat_identity msg = Some a\<close> a by blast
  qed
qed

lemmas decoder_defs =
  handleEnvelope_def processMessage_def deliver_def chat_identity_def is_chatid_command_def
  content_parts_def build_attachments_def build_quote_def build_reaction_def quote_part_def
  reaction_part_def quote_snippet_def date_iso_def truthy_num_def truthy_def or_else_def
  or_default_def resolveMentions_def trim_def js_space_def Let_def forwarded_def map_filter_def
  js_def

lemmas example_defs =
  example_world_def echo_direct_def echo_group_def echo_no_destination_def echo_envelope_def
  echo_payload_def ascii_lower_def peer_msg_def long_quote_def quoting_msg_def chatid_msg_def
  anonymous_chatid_def removal_def removal_envelope_def

subsection \<open>The chat identity of an echo\<close>

text \<open>
  C1, as the code has it. For an envelope of the echo shape (a
  \<open>syncMessage.sentMessage\<close> and no \<open>dataMessage\<close>), the chat identity of a forwarded
  message is \<open>signal:\<close> followed by the group id when the sent message has one;
  without a group id it is \<open>signal:\<close> followed by the destination number, else the
  destination UUID, else the \<open>destination\<close> field, whichever is the first present, and
  the envelope's source is used only when the sent message names no destination at all.
\<close>

theorem echo_chat_identity:
  assumes "dataMessage e = None" and "syncMessage e = Some (Some sm)"
    and "nm \<in> set (forwarded (fst (handleEnvelope w e)))"
  shows "((case dm_groupInfo sm of None \<Rightarrow> None | Some gi \<Rightarrow> groupId gi) = Some g \<and> g \<noteq> []
           \<longrightarrow> chat_jid nm = js ''signal:'' @ g)
       \<and> (\<not> truthy (case dm_groupInfo sm of None \<Rightarrow> None | Some gi \<Rightarrow> groupId gi) \<longrightarrow>
           (destinationNumber sm = Some d \<and> d \<noteq> [] \<longrightarrow> chat_jid nm = js ''signal:'' @ d)
         \<and> (\<not> truthy (destinationNumber sm) \<and> destinationUuid sm = Some d \<and> d \<noteq> []
              \<longrightarrow> chat_jid nm = js ''signal:'' @ d)
         \<and> (\<not> truthy (destinationNumber sm) \<and> \<not> truthy (destinationUuid sm)
              \<and> destination sm = Some d \<and> d \<noteq> [] \<longrightarrow> chat_jid nm = js ''signal:'' @ d)
         \<and> (\<not> truthy (destinationNumber sm) \<and> \<not> truthy (destinationUuid sm)
              \<and> \<not> truthy (destination sm)
              \<longrightarrow> chat_jid nm = js ''signal:'' @
                    or_default (or_else (sourceNumber e) (or_else (sourceUuid e) (source e))) []))"
proof -
  let ?src = "or_else (sourceNumber e) (or_else (sourceUuid e) (source e))"
  let ?msg = "\<lparr>sourceId = or_else (or_else (destinationNumber sm)
                                  (or_else (destinationUuid sm) (destination sm))) ?src,
                sourceName = or_default (or_else (env_sourceName e) ?src) (js ''Unknown''),
                msg_timestamp = (case sm_timestamp sm of Some t \<Rightarrow> Some t | None \<Rightarrow> env_timestamp e),
                message = resolveMentions (config.truncate w) (dm_message sm) (dm_mentions sm),
                groupInfo = dm_groupInfo sm, isFromMe = True,
                rawAttachments = dm_attachments sm, rawQuote = dm_quote sm,
                rawReaction = dm_reaction sm\<rparr>"
  have "handleEnvelope w e = processMessage w ?msg"
    using assms(1,2) by (simp add: handleEnvelope_def Let_def)
  with assms(3) obtain b where ci: "chat_identity ?msg = Some (chat_jid nm, b)"
    using forwarded_processMessage by fastforce
  have grp: "(case dm_groupInfo sm of None \<Rightarrow> None | Some gi \<Rightarrow> groupId gi) = Some g \<and> g \<noteq> []
           \<longrightarrow> chat_jid nm = js ''signal:'' @ g"
    using ci by (auto simp: chat_identity_def Let_def truthy_def or_default_def split: if_splits)
  have peer: "\<not> truthy (case dm_groupInfo sm of None \<Rightarrow> None | Some gi \<Rightarrow> groupId gi) \<longrightarrow>
           (destinationNumber sm = Some d \<and> d \<noteq> [] \<longrightarrow> chat_jid nm = js ''signal:'' @ d)
         \<and> (\<not> truthy (destinationNumber sm) \<and> destinationUuid sm = Some d \<and> d \<noteq> []
              \<longrightarrow> chat_jid nm = js ''signal:'' @ d)
         \<and> (\<not> truthy (destinationNumber sm) \<and> \<not> truthy (destinationUuid sm)
              \<and> destination sm = Some d \<and> d \<noteq> [] \<longrightarrow> chat_jid nm = js ''signal:'' @ d)
         \<and> (\<not> truthy (destinationNumber sm) \<and> \<not> truthy (destinationUuid sm)
              \<and> \<not> truthy (destination sm)
              \<longrightarrow> chat_jid nm = js ''signal:'' @
                    or_default (or_else (sourceNumber e) (or_else (sourceUuid e) (source e))) [])"
    using ci
    by (simp add: chat_identity_def Let_def split: if_splits)
       (auto simp: truthy_def or_default_def or_else_def)
  from grp peer show ?thesis by (rule conjI)
qed

lemma echo_direct_forwarded:
  "map chat_jid (forwarded (fst (handleEnvelope example_world echo_direct))) = [js ''signal:+15552222'']"
  by (simp add: decoder_defs example_defs)

theorem echo_chat_identity_witness:
  "forwarded (fst (handleEnvelope example_world echo_direct)) \<noteq> []
   \<and> chat_jid (hd (forwarded (fst (handleEnvelope example_world echo_direct)))) = js ''signal:+15552222''"
proof -
  let ?F = "forwarded (fst (handleEnvelope example_world echo_direct))"
  have ne: "?F \<noteq> []" using echo_direct_forwarded by auto
  then have mem: "hd ?F \<in> set ?F" by simp
  have d: "dataMessage echo_direct = None" "syncMessage echo_direct = Some (Some echo_payload)"
    by (simp_all add: example_defs)
  have p: "\<not> truthy (case dm_groupInfo echo_payload of None \<Rightarrow> None | Some gi \<Rightarrow> groupId gi)"
    "destinationNumber echo_payload = Some (js ''+15552222'')" "js ''+15552222'' \<noteq> []"
    by (simp_all add: example_defs truthy_def js_def)
  have c: "js ''signal:'' @ js ''+15552222'' = js ''signal:+15552222''" by (simp add: js_def)
  from echo_chat_identity [OF d mem, of _ "js ''+15552222''"] p
  have "chat_jid (hd ?F) = js ''signal:'' @ js ''+15552222''" by blast
  with ne c show ?thesis by simp
qed

text \<open>
  The claim as the specification states it fails on an echo sent to a group, whose
  identity is the group id, and on an echo without destination, whose identity is the
  envelope's source.
\<close>

theorem echo_identity_not_always_destination:
  "map chat_jid (forwarded (fst (handleEnvelope example_world echo_group))) = [js ''signal:R3JvdXA='']
   \<and> sourceNumber echo_no_destination = Some (js ''+15550000'')
   \<and> map chat_jid (forwarded (fst (handleEnvelope example_world echo_no_destination)))
       = [js ''signal:+15550000'']"
  by (simp add: decoder_defs example_defs)

subsection \<open>Quotes\<close>

lemma join_middle: "\<exists>b a. join sep (xs @ x # ys) = b @ x @ a"
proof (induction xs)
  case Nil
  show ?case by (cases ys) (auto intro: exI [of _ "[]"])
next
  case (Cons z zs)
  then obtain b a where ba: "join sep (zs @ x # ys) = b @ x @ a" by blast
  obtain u us where "zs @ x # ys = u # us" by (cases "zs @ x # ys") auto
  then have "join sep ((z # zs) @ x # ys) = z @ sep @ join sep (zs @ x # ys)" by simp
  with ba have "join sep ((z # zs) @ x # ys) = (z @ sep @ b) @ x @ a" by simp
  then show ?case by blast
qed

lemma length_quote_snippet: "length (quote_snippet t) \<le> 103"
  by (simp add: quote_snippet_def slice_def js_index_def js_def)

lemma quote_snippet_eq:
  "quote_snippet t = (if length t \<le> 100 then t else take 100 t @ js ''...'')"
  by (simp add: quote_snippet_def slice_def js_index_def)

text \<open>
  C5, as the code has it. A forwarded message that carries a quote holds the quoted
  text in full in its \<open>quote\<close> field; what is cut is the snippet inside the line
  \<open>[replying to author: snippet]\<close> of the content string: the text itself up to 100 code
  units, else its first 100 code units followed by \<open>...\<close>, 103 code units at most.
\<close>

theorem forwarded_quote_untruncated:
  assumes "rawQuote msg = Some rq" and "nm \<in> set (forwarded (fst (processMessage w msg)))"
  shows "\<exists>q. quote nm = Some q \<and> quote_text q = or_default (rq_text rq) []
             \<and> (\<exists>before after. content nm = before @ quote_part q @ after)
             \<and> quote_part q = js ''[replying to '' @ author q @ js '': '' @ quote_snippet (quote_text q) @ js '']''
             \<and> quote_snippet (quote_text q)
                 = (if length (quote_text q) \<le> 100 then quote_text q else take 100 (quote_text q) @ js ''...'')
             \<and> length (quote_snippet (quote_text q)) \<le> 103"
proof -
  from assms(2) obtain ts where "nm \<in> set (forwarded (fst (deliver w msg (chat_jid nm) ts)))"
    using forwarded_processMessage by blast
  from forwarded_deliver [OF this] assms(1) obtain ps where
    q: "quote nm = Some (build_quote w rq)" and
    c: "content nm = join [10] (content_parts msg (quote nm) (reaction nm) ps)"
    by auto
  let ?q = "build_quote w rq"
  have mid: "\<exists>before after. content nm = before @ quote_part ?q @ after"
    unfolding c q content_parts_def using join_middle [of "[10]" _ "quote_part ?q"] by simp
  have qtext: "quote_text ?q = or_default (rq_text rq) []"
    by (simp add: build_quote_def Let_def)
  have qpart: "quote_part ?q = js ''[replying to '' @ author ?q @ js '': '' @ quote_snippet (quote_text ?q) @ js '']''"
    by (simp add: quote_part_def)
  from q qtext mid qpart quote_snippet_eq [of "quote_text ?q"] length_quote_snippet [of "quote_text ?q"]
  show ?thesis by blast
qed

lemma quoting_forwarded:
  "map (\<lambda>m. map_option quote_text (quote m)) (forwarded (fst (processMessage example_world quoting_msg)))
     = [Some (replicate 150 97)]"
  by (simp add: decoder_defs example_defs)

theorem forwarded_quote_untruncated_witness:
  "forwarded (fst (processMessage example_world quoting_msg)) \<noteq> []
   \<and> map_option quote_text (quote (hd (forwarded (fst (processMessage example_world quoting_msg)))))
       = Some (replicate 150 97)
   \<and> length (quote_snippet (replicate 150 97)) \<le> 103"
proof -
  let ?F = "forwarded (fst (processMessage example_world quoting_msg))"
  have ne: "?F \<noteq> []" using quoting_forwarded by auto
  then have mem: "hd ?F \<in> set ?F" by simp
  have q: "rawQuote quoting_msg = Some long_quote" by (simp add: example_defs)
  have t: "or_default (rq_text long_quote) [] = replicate 150 97"
    by (simp add: example_defs or_default_def)
  from forwarded_quote_untruncated [OF q mem] t ne show ?thesis by auto
qed

text \<open>The claim as the specification states it fails: a quoted text of 150 code units
  reaches the handler with its 150 code units.\<close>

theorem forwarded_quote_longer_than_snippet:
  "forwarded (fst (processMessage example_world quoting_msg)) \<noteq> []
   \<and> map_option (length \<circ> quote_text) (quote (hd (forwarded (fst (processMessage example_world quoting_msg)))))
       = Some 150"
  by (simp add: decoder_defs example_defs)

subsection \<open>The discovery command\<close>

text \<open>
  C7, as the code has it. A message whose body, trimmed and case-folded, is \<open>/chatid\<close>
  is never forwarded to the message handler; and when a chat identity can be derived
  for it (a group id or a sender id is present) and its timestamp is absent or a valid
  time value, the decoder makes exactly one call, \<open>rpcSend\<close> to that identity with the
  text \<open>Chat ID: \<close> followed by the identity. (\<open>toLowerCase\<close> maps the empty string to
  itself.)
\<close>

theorem chatid_short_circuit:
  assumes "message msg = Some s" and "toLowerCase w (trim s) = js ''/chatid''"
    and "toLowerCase w [] = []"
  shows "forwarded (fst (processMessage w msg)) = []
         \<and> (chat_identity msg = Some (jid, g)
              \<and> (case msg_timestamp msg of None \<Rightarrow> True
                  | Some t \<Rightarrow> - 8640000000000000 \<le> t \<and> t \<le> 8640000000000000)
            \<longrightarrow> processMessage w msg = ([RpcSend jid (js ''Chat ID: '' @ jid)], Resolved))"
proof -
  have "s \<noteq> []" using assms(2,3) by (auto simp: trim_def js_def)
  with assms(1,2) have cmd: "is_chatid_command w (message msg)"
    by (simp add: is_chatid_command_def)
  have "forwarded (fst (processMessage w msg)) = []"
    using cmd by (auto simp: processMessage_def forwarded_Cons split: option.splits)
  moreover have "chat_identity msg = Some (jid, g)
       \<and> (case msg_timestamp msg of None \<Rightarrow> True
           | Some t \<Rightarrow> - 8640000000000000 \<le> t \<and> t \<le> 8640000000000000)
     \<longrightarrow> processMessage w msg = ([RpcSend jid (js ''Chat ID: '' @ jid)], Resolved)"
    using cmd by (auto simp: processMessage_def date_iso_def truthy_num_def split: option.splits)
  ultimately show ?thesis by blast
qed

theorem chatid_short_circuit_witness:
  "toLowerCase example_world (trim (js '' /ChatID '')) = js ''/chatid''
   \<and> forwarded (fst (processMessage example_world chatid_msg)) = []
   \<and> processMessage example_world chatid_msg
       = ([RpcSend (js ''signal:+15552222'') (js ''Chat ID: signal:+15552222'')], Resolved)"
proof -
  have m: "message chatid_msg = Some (js '' /ChatID '')" by (simp add: example_defs)
  have l: "toLowerCase example_world (trim (js '' /ChatID '')) = js ''/chatid''"
    by (simp add: example_defs trim_def js_space_def js_def)
  have e: "toLowerCase example_world [] = []" by (simp add: example_defs)
  have i: "chat_identity chatid_msg = Some (js ''signal:+15552222'', False)"
    by (simp add: example_defs chat_identity_def truthy_def or_default_def js_def)
  have t: "msg_timestamp chatid_msg = Some 1700000000000" by (simp add: example_defs)
  have c: "js ''Chat ID: '' @ js ''signal:+15552222'' = js ''Chat ID: signal:+15552222''"
    by (simp add: js_def)
  from chatid_short_circuit [OF m l e, of "js ''signal:+15552222''" False] i t
  have "forwarded (fst (processMessage example_world chatid_msg)) = []
        \<and> processMessage example_world chatid_msg
            = ([RpcSend (js ''signal:+15552222'') (js ''Chat ID: '' @ js ''signal:+15552222'')], Resolved)"
    by (simp add: forwarded_Cons)
  with l show ?thesis unfolding c by blast
qed

text \<open>The claim as the specification states it fails on a message for which no chat
  identity can be derived: the decoder returns before the command is looked at, and
  sends no reply.\<close>

theorem chatid_without_identity_no_reply:
  "map_option dm_message (dataMessage anonymous_chatid) = Some (Some (js ''/chatid''))
   \<and> toLowerCase example_world (trim (js ''/chatid'')) = js ''/chatid''
   \<and> handleEnvelope example_world anonymous_chatid = ([], Resolved)"
  by (simp add: decoder_defs example_defs)

subsection \<open>Reactions\<close>

lemma build_reaction_removed:
  "isRemove r = Some True \<Longrightarrow> build_reaction w (Some r) = Some None"
  by (simp add: build_reaction_def)

lemma processMessage_removed:
  assumes "rawReaction msg = Some r" and "isRemove r = Some True"
    and "nm \<in> set (forwarded (fst (processMessage w msg)))"
  shows "reaction nm = None"
proof -
  from assms(3) obtain ts where "nm \<in> set (forwarded (fst (deliver w msg (chat_jid nm) ts)))"
    using forwarded_processMessage by blast
  from forwarded_deliver [OF this] have "build_reaction w (rawReaction msg) = Some (reaction nm)"
    by simp
  with assms(1,2) show ?thesis by (simp add: build_reaction_removed)
qed

text \<open>
  C8. When the reaction event of the payload that is decoded has the removal flag set,
  no message forwarded for the envelope has a reaction field.
\<close>

theorem removed_reaction_suppressed:
  assumes "payload_reaction e = Some r" and "isRemove r = Some True"
    and "nm \<in> set (forwarded (fst (handleEnvelope w e)))"
  shows "reaction nm = None"
proof (cases "dataMessage e")
  case (Some dm)
  with assms(1) have "dm_reaction dm = Some r" by (simp add: payload_reaction_def)
  with assms(2,3) Some show ?thesis
    by (auto simp: handleEnvelope_def Let_def elim!: processMessage_removed [rotated 2])
next
  case None
  with assms(1) obtain sm where sm: "syncMessage e = Some (Some sm)" "dm_reaction sm = Some r"
    by (auto simp: payload_reaction_def split: option.splits)
  with assms(2,3) None show ?thesis
    by (auto simp: handleEnvelope_def Let_def elim!: processMessage_removed [rotated 2])
qed

lemma removal_forwarded:
  "map content (forwarded (fst (handleEnvelope example_world removal_envelope))) = [js ''never mind'']"
  by (simp add: decoder_defs example_defs payload_reaction_def)

theorem removed_reaction_suppressed_witness:
  "forwarded (fst (handleEnvelope example_world removal_envelope)) \<noteq> []
   \<and> reaction (hd (forwarded (fst (handleEnvelope example_world removal_envelope)))) = None"
proof -
  let ?F = "forwarded (fst (handleEnvelope example_world removal_envelope))"
  have ne: "?F \<noteq> []" using removal_forwarded by auto
  then have mem: "hd ?F \<in> set ?F" by simp
  have r: "payload_reaction removal_envelope = Some removal" "isRemove removal = Some True"
    by (simp_all add: example_defs payload_reaction_def)
  from removed_reaction_suppressed [OF r mem] ne show ?thesis by simp
qed

section \<open>Text style codec: the stripping loop\<close>

lemma strip_append: "strip mk k (xs @ ys) = strip mk k xs @ strip mk (k + length xs) ys"
  by (induction xs arbitrary: k) simp_all

lemma build_prefix:
  "n \<le> length s \<Longrightarrow>
   foldl (build_step mk s) ([], []) [0..<n]
     = (map (\<lambda>i. if i \<in> mk then - 1 else int (length (strip mk 0 (take i s)))) [0..<n],
        strip mk 0 (take n s))"
proof (induction n)
  case 0
  show ?case by simp
next
  case (Suc n)
  then have n: "n < length s" by simp
  with Suc show ?case
    by (simp add: build_step_def take_Suc_conv_app_nth strip_append)
qed

lemma build_eq:
  "build mk s = (map (\<lambda>i. if i \<in> mk then - 1 else int (length (strip mk 0 (take i s)))) [0..<length s],
                 strip mk 0 s)"
  by (simp add: build_def build_prefix)

lemma strip_take_less:
  assumes "i < length s" and "i \<notin> mk"
  shows "length (strip mk 0 (take i s)) < length (strip mk 0 s)"
proof -
  have "s = take i s @ s ! i # drop (Suc i) s"
    using assms(1) by (simp add: id_take_nth_drop [symmetric])
  then have "strip mk 0 s = strip mk 0 (take i s) @ strip mk i (s ! i # drop (Suc i) s)"
    using assms(1) by (metis strip_append add_0 length_take min.absorb2 less_imp_le)
  with assms(2) show ?thesis by simp
qed

lemma lookup_build:
  assumes "lookup (fst (build mk s)) k = Some v"
  shows "v = - 1 \<or> (0 \<le> v \<and> v < int (length (snd (build mk s))))"
proof -
  from assms have k: "0 \<le> k" "nat k < length s" and v: "v = fst (build mk s) ! nat k"
    by (auto simp: lookup_def build_eq split: if_splits)
  show ?thesis
  proof (cases "nat k \<in> mk")
    case True
    with k v show ?thesis by (simp add: build_eq)
  next
    case False
    with k v strip_take_less [of "nat k" s mk] show ?thesis by (simp add: build_eq)
  qed
qed

lemma span_of_wf:
  assumes "span_of (fst (build mk s)) m = Some sp"
  shows "1 \<le> ts_length sp \<and> 0 \<le> ts_start sp
         \<and> ts_start sp + ts_length sp \<le> int (length (snd (build mk s)))"
proof -
  let ?im = "fst (build mk s)"
  let ?l = "lastContent ?im (int (openEnd m)) (int (closeStart m) - 1)"
  from assms obtain st e where
    st: "lookup ?im (int (openEnd m)) = Some st" "st \<noteq> - 1" and
    e: "lookup ?im ?l = Some e" and
    pos: "0 < e + 1 - st" and
    sp: "sp = \<lparr>ts_style = style m, ts_start = st, ts_length = e + 1 - st\<rparr>"
    by (auto simp: span_of_def Let_def split: if_splits option.splits)
  from lookup_build [OF st(1)] st(2) have st0: "0 \<le> st" by auto
  from lookup_build [OF e] pos st0 have "0 \<le> e \<and> e < int (length (snd (build mk s)))" by auto
  with st0 pos sp show ?thesis by simp
qed

text \<open>
  C9. Every span that \<open>parseSignalStyles\<close> returns has a length of at least 1 and a start
  of at least 0, and ends within the stripped text, all counted in UTF-16 code units.
\<close>

theorem spans_well_formed:
  "sp \<in> set (snd (parseSignalStyles input)) \<Longrightarrow>
     1 \<le> ts_length sp \<and> 0 \<le> ts_start sp
     \<and> ts_start sp + ts_length sp \<le> int (length (fst (parseSignalStyles input)))"
proof -
  assume a: "sp \<in> set (snd (parseSignalStyles input))"
  let ?st = "collect patterns input"
  from a have ne: "input \<noteq> []" "matches ?st \<noteq> []"
    by (auto simp: parseSignalStyles_def Let_def split: if_splits)
  obtain im out where b: "build (markers ?st) input = (im, out)" by (cases "build (markers ?st) input")
  from a ne b have "sp \<in> set (List.map_filter (span_of im) (matches ?st))"
    by (simp add: parseSignalStyles_def Let_def)
  then obtain m where "span_of im m = Some sp"
    by (auto simp: map_filter_def)
  with b span_of_wf [of "markers ?st" input m sp] have
    "1 \<le> ts_length sp \<and> 0 \<le> ts_start sp \<and> ts_start sp + ts_length sp \<le> int (length out)"
    by simp
  moreover from ne b have "fst (parseSignalStyles input) = out"
    by (simp add: parseSignalStyles_def Let_def)
  ultimately show ?thesis by simp
qed

lemma hello_world: "parseSignalStyles (js ''hello *world*'')
   = (js ''hello world'', [\<lparr>ts_style = BOLD, ts_start = 6, ts_length = 5\<rparr>])"
  by code_simp

theorem spans_well_formed_witness:
  "\<lparr>ts_style = BOLD, ts_start = 6, ts_length = 5\<rparr> \<in> set (snd (parseSignalStyles (js ''hello *world*'')))
   \<and> (6::int) + 5 \<le> int (length (fst (parseSignalStyles (js ''hello *world*''))))"
proof -
  have m: "\<lparr>ts_style = BOLD, ts_start = 6, ts_length = 5\<rparr>
             \<in> set (snd (parseSignalStyles (js ''hello *world*'')))"
    by (simp add: hello_world)
  from spans_well_formed [OF m] m show ?thesis by simp
qed

section \<open>Text style codec: code spans are protected\<close>

lemma foldl_preserves:
  "(\<And>st c. P st \<Longrightarrow> P (f st c)) \<Longrightarrow> P st \<Longrightarrow> P (foldl f st cs)"
  by (induction cs arbitrary: st) simp_all

lemma claim_code:
  assumes "pstyle p = MONOSPACE" and "only_code st \<and> code_claimed st"
  shows "only_code (claim p st c) \<and> code_claimed (claim p st c)"
  using assms
  by (auto simp: claim_def Let_def only_code_def code_claimed_def span_indices_def list_ex_iff)

lemma claim_other:
  assumes "pstyle p \<noteq> MONOSPACE" and "code_claimed st \<and> code_untouched st"
  shows "code_claimed (claim p st c) \<and> code_untouched (claim p st c)"
proof (cases "list_ex (\<lambda>i. i \<in> markers st \<or> i \<in> protected st)
                [fst c..<fst c + (snd c - fst c)]")
  case True
  with assms(2) show ?thesis by (simp add: claim_def Let_def)
next
  case False
  let ?new = "\<lparr>openStart = fst c, openEnd = fst c + markerLen p,
               closeStart = fst c + (snd c - fst c) - markerLen p,
               closeEnd = fst c + (snd c - fst c), style = pstyle p\<rparr>"
  from False have free: "span_indices ?new \<inter> (markers st \<union> protected st) = {}"
    by (auto simp: list_ex_iff span_indices_def)
  from False have ms: "matches (claim p st c) = matches st @ [?new]"
    by (simp add: claim_def Let_def)
  from False have grow: "markers st \<union> protected st
                           \<subseteq> markers (claim p st c) \<union> protected (claim p st c)"
    by (auto simp: claim_def Let_def)
  have claimed: "code_claimed (claim p st c)"
    unfolding code_claimed_def ms
  proof (intro ballI impI)
    fix m assume m: "m \<in> set (matches st @ [?new])" and mono: "style m = MONOSPACE"
    with assms(1) have "m \<in> set (matches st)" by auto
    with mono assms(2) have "span_indices m \<subseteq> markers st \<union> protected st"
      by (simp add: code_claimed_def)
    with grow show "span_indices m \<subseteq> markers (claim p st c) \<union> protected (claim p st c)"
      by (rule order_trans [rotated])
  qed
  have untouched: "code_untouched (claim p st c)"
    unfolding code_untouched_def ms
  proof (intro ballI impI)
    fix m m'
    assume m: "m \<in> set (matches st @ [?new])" and m': "m' \<in> set (matches st @ [?new])"
      and sty: "style m = MONOSPACE \<and> style m' \<noteq> MONOSPACE"
    from m sty assms(1) have old: "m \<in> set (matches st)" by auto
    show "span_indices m \<inter> span_indices m' = {}"
    proof (cases "m' = ?new")
      case True
      from old sty assms(2) have "span_indices m \<subseteq> markers st \<union> protected st"
        by (simp add: code_claimed_def)
      with free True show ?thesis by blast
    next
      case False
      with m' have "m' \<in> set (matches st)" by simp
      with old sty assms(2) show ?thesis by (simp add: code_untouched_def)
    qed
  qed
  from claimed untouched show ?thesis ..
qed

lemma collect_pattern_code:
  "pstyle p = MONOSPACE \<Longrightarrow> only_code st \<and> code_claimed st \<Longrightarrow>
     only_code (collect_pattern s st p) \<and> code_claimed (collect_pattern s st p)"
  unfolding collect_pattern_def
  by (rule foldl_preserves [where P = "\<lambda>st. only_code st \<and> code_claimed st"]) (rule claim_code)

lemma collect_pattern_other:
  "pstyle p \<noteq> MONOSPACE \<Longrightarrow> code_claimed st \<and> code_untouched st \<Longrightarrow>
     code_claimed (collect_pattern s st p) \<and> code_untouched (collect_pattern s st p)"
  unfolding collect_pattern_def
  by (rule foldl_preserves [where P = "\<lambda>st. code_claimed st \<and> code_untouched st"]) (rule claim_other)

lemma only_code_untouched: "only_code st \<Longrightarrow> code_untouched st"
  by (auto simp: only_code_def code_untouched_def)

lemma collect_untouched: "code_untouched (collect patterns s)"
proof -
  let ?s0 = "\<lparr>matches = [], markers = {}, protected = {}\<rparr>"
  let ?s1 = "collect_pattern s ?s0 pat_code"
  let ?s2 = "collect_pattern s ?s1 pat_spoiler"
  let ?s3 = "collect_pattern s ?s2 pat_strike2"
  let ?s4 = "collect_pattern s ?s3 pat_strike1"
  let ?s5 = "collect_pattern s ?s4 pat_bold"
  let ?s6 = "collect_pattern s ?s5 pat_italic"
  have "only_code ?s0 \<and> code_claimed ?s0" by (simp add: only_code_def code_claimed_def)
  then have "only_code ?s1 \<and> code_claimed ?s1"
    by (rule collect_pattern_code [rotated]) (simp add: pat_code_def)
  then have "code_claimed ?s1 \<and> code_untouched ?s1" by (simp add: only_code_untouched)
  then have "code_claimed ?s2 \<and> code_untouched ?s2"
    by (rule collect_pattern_other [rotated]) (simp add: pat_spoiler_def)
  then have "code_claimed ?s3 \<and> code_untouched ?s3"
    by (rule collect_pattern_other [rotated]) (simp add: pat_strike2_def)
  then have "code_claimed ?s4 \<and> code_untouched ?s4"
    by (rule collect_pattern_other [rotated]) (simp add: pat_strike1_def)
  then have "code_claimed ?s5 \<and> code_untouched ?s5"
    by (rule collect_pattern_other [rotated]) (simp add: pat_bold_def)
  then have "code_claimed ?s6 \<and> code_untouched ?s6"
    by (rule collect_pattern_other [rotated]) (simp add: pat_italic_def)
  moreover have "collect patterns s = ?s6" by (simp add: collect_def patterns_def)
  ultimately show ?thesis by simp
qed

lemma backtick_example:
  "parseSignalStyles (js ''`*x*`'') = (js ''*x*'', [\<lparr>ts_style = MONOSPACE, ts_start = 0, ts_length = 3\<rparr>])"
  by code_simp

lemma mixed_matches:
  "matches (collect patterns (js ''`a` *b*''))
    = [\<lparr>openStart = 0, openEnd = 1, closeStart = 2, closeEnd = 3, style = MONOSPACE\<rparr>,
       \<lparr>openStart = 4, openEnd = 5, closeStart = 6, closeEnd = 7, style = BOLD\<rparr>]"
  by code_simp

text \<open>
  C4. No index of a code span, delimiter or content, belongs to an accepted match of
  another style; and the input \<open>*x*\<close> between backticks gives the text \<open>*x*\<close> with one
  MONOSPACE span over its three characters and nothing else.
\<close>

theorem code_span_protected:
  "(m \<in> set (matches (collect patterns input)) \<and> style m = MONOSPACE
      \<and> m' \<in> set (matches (collect patterns input)) \<and> style m' \<noteq> MONOSPACE
    \<longrightarrow> span_indices m \<inter> span_indices m' = {})
   \<and> parseSignalStyles (js ''`*x*`'')
       = (js ''*x*'', [\<lparr>ts_style = MONOSPACE, ts_start = 0, ts_length = 3\<rparr>])"
proof
  show "m \<in> set (matches (collect patterns input)) \<and> style m = MONOSPACE
      \<and> m' \<in> set (matches (collect patterns input)) \<and> style m' \<noteq> MONOSPACE
    \<longrightarrow> span_indices m \<inter> span_indices m' = {}"
    using collect_untouched [of input] unfolding code_untouched_def by blast
  show "parseSignalStyles (js ''`*x*`'')
       = (js ''*x*'', [\<lparr>ts_style = MONOSPACE, ts_start = 0, ts_length = 3\<rparr>])"
    by (rule backtick_example)
qed

theorem code_span_protected_witness:
  "matches (collect patterns (js ''`a` *b*''))
     = [\<lparr>openStart = 0, openEnd = 1, closeStart = 2, closeEnd = 3, style = MONOSPACE\<rparr>,
        \<lparr>openStart = 4, openEnd = 5, closeStart = 6, closeEnd = 7, style = BOLD\<rparr>]
   \<and> span_indices \<lparr>openStart = 0, openEnd = 1, closeStart = 2, closeEnd = 3, style = MONOSPACE\<rparr>
       \<inter> span_indices \<lparr>openStart = 4, openEnd = 5, closeStart = 6, closeEnd = 7, style = BOLD\<rparr> = {}"
proof -
  let ?c = "\<lparr>openStart = 0, openEnd = 1, closeStart = 2, closeEnd = 3, style = MONOSPACE\<rparr>"
  let ?b = "\<lparr>openStart = 4, openEnd = 5, closeStart = 6, closeEnd = 7, style = BOLD\<rparr>"
  have "?c \<in> set (matches (collect patterns (js ''`a` *b*''))) \<and> style ?c = MONOSPACE
        \<and> ?b \<in> set (matches (collect patterns (js ''`a` *b*''))) \<and> style ?b \<noteq> MONOSPACE"
    by (simp add: mixed_matches)
  with code_span_protected [of ?c "js ''`a` *b*''" ?b] mixed_matches show ?thesis by blast
qed

section \<open>Text style codec: one marker pair after a prefix\<close>

lemma patterns_cases:
  "p \<in> set patterns \<Longrightarrow>
     p = pat_code \<or> p = pat_spoiler \<or> p = pat_strike2 \<or> p = pat_strike1 \<or> p = pat_bold \<or> p = pat_italic"
  by (simp add: patterns_def)

lemmas pat_defs = pat_code_def pat_spoiler_def pat_strike2_def pat_strike1_def pat_bold_def pat_italic_def

lemma pattern_facts:
  assumes "p \<in> set patterns"
  shows "0 < markerLen p" and "marker_char (delim p)"
    and "\<not> marker_char c \<Longrightarrow> \<not> word_char c \<Longrightarrow> \<not> lookbehind p c"
  using patterns_cases [OF assms]
  by (auto simp: pat_defs marker_char_def)

lemma match_at_no_delim:
  assumes "i < length s" and "s ! i \<noteq> delim q" and "0 < markerLen q"
  shows "match_at q s i = None"
proof -
  from assms(3) obtain n where n: "markerLen q = Suc n" by (cases "markerLen q") auto
  from assms(1) have "drop i s = s ! i # drop (Suc i) s" by (simp add: Cons_nth_drop_Suc)
  with n assms(2) have "take (markerLen q) (drop i s) \<noteq> replicate (markerLen q) (delim q)"
    by simp
  then show ?thesis by (simp add: match_at_def Let_def)
qed

lemma scan_all_None:
  "(\<And>j. i \<le> j \<Longrightarrow> j < length s \<Longrightarrow> match_at q s j = None) \<Longrightarrow> scan q s i = []"
proof (induction q s i rule: scan.induct)
  case (1 p s i)
  show ?case
  proof (cases "length s \<le> i")
    case True
    then show ?thesis by (simp add: scan.simps)
  next
    case False
    then have "match_at p s i = None" using "1.prems" by simp
    moreover from this False have "scan p s (Suc i) = []"
      using "1.IH"(1) "1.prems" by simp
    ultimately show ?thesis using False by (simp add: scan.simps [of p s i])
  qed
qed

lemma scan_no_delim:
  "delim q \<notin> set s \<Longrightarrow> 0 < markerLen q \<Longrightarrow> scan q s i = []"
  by (rule scan_all_None) (metis match_at_no_delim nth_mem)

lemma scan_skip:
  assumes "\<And>j. i \<le> j \<Longrightarrow> j < k \<Longrightarrow> match_at q s j = None" and "i \<le> k" and "k \<le> length s"
  shows "scan q s i = scan q s k"
  using assms
proof (induction "k - i" arbitrary: i)
  case 0
  then show ?case by simp
next
  case (Suc n)
  then have lt: "i < k" by simp
  then have "match_at q s i = None" using Suc.prems(1) by simp
  moreover have "scan q s (Suc i) = scan q s k"
    using Suc.hyps Suc.prems lt by auto
  ultimately show ?case using lt Suc.prems(3) by (simp add: scan.simps [of q s i])
qed

lemma takeWhile_content:
  assumes "\<forall>c \<in> set u. c \<noteq> d" and "0 < n"
  shows "takeWhile (\<lambda>c. c \<noteq> d) (u @ replicate n d @ rest) = u"
proof -
  from assms(2) obtain m where "n = Suc m" by (cases n) auto
  with assms(1) show ?thesis by (simp add: takeWhile_append2)
qed

text \<open>The own pattern matches once, from the end of the prefix to the end of the input.\<close>

lemma match_at_own:
  assumes p: "p \<in> set patterns"
    and pre: "\<not> marker_char x" "\<not> word_char x"
    and u: "u \<noteq> []" "\<forall>c \<in> set u. \<not> marker_char c"
  shows "match_at p ((pre @ [x]) @ replicate (markerLen p) (delim p) @ u @ replicate (markerLen p) (delim p))
           (length (pre @ [x]))
         = Some (length ((pre @ [x]) @ replicate (markerLen p) (delim p) @ u @ replicate (markerLen p) (delim p)))"
proof -
  let ?D = "replicate (markerLen p) (delim p)"
  let ?P = "pre @ [x]"
  let ?s = "?P @ ?D @ u @ ?D"
  have ml: "0 < markerLen p" and d: "marker_char (delim p)" and lb: "\<not> lookbehind p x"
    using pattern_facts [OF p] pre by auto
  from u d have ud: "\<forall>c \<in> set u. c \<noteq> delim p" by auto
  have 1: "take (markerLen p) (drop (length ?P) ?s) = ?D" by simp
  have 2: "?s ! (length ?P - 1) = x" by (simp add: nth_append)
  have 3: "drop (length ?P + markerLen p) ?s = u @ ?D @ []"
    by (simp add: drop_append)
  have 4: "takeWhile (\<lambda>c. c \<noteq> delim p) (drop (length ?P + markerLen p) ?s) = u"
    unfolding 3 using ud ml by (rule takeWhile_content)
  have 5: "drop (length ?P + markerLen p + length u) ?s = ?D"
    by (simp add: drop_append)
  have 6: "length ?s = length ?P + markerLen p + length u + markerLen p" by simp
  show ?thesis
    unfolding match_at_def Let_def 4 5 using 1 2 lb u(1) 6 by simp
qed


lemma scan_own:
  assumes p: "p \<in> set patterns"
    and pre: "\<forall>c \<in> set pre. \<not> marker_char c" "\<not> marker_char x" "\<not> word_char x"
    and u: "u \<noteq> []" "\<forall>c \<in> set u. \<not> marker_char c"
  shows "scan p ((pre @ [x]) @ replicate (markerLen p) (delim p) @ u @ replicate (markerLen p) (delim p)) 0
         = [(length (pre @ [x]),
             length ((pre @ [x]) @ replicate (markerLen p) (delim p) @ u @ replicate (markerLen p) (delim p)))]"
proof -
  let ?D = "replicate (markerLen p) (delim p)"
  let ?P = "pre @ [x]"
  let ?s = "?P @ ?D @ u @ ?D"
  have ml: "0 < markerLen p" and d: "marker_char (delim p)"
    using pattern_facts [OF p] by auto
  have skip: "scan p ?s 0 = scan p ?s (length ?P)"
  proof (rule scan_skip)
    fix j assume "0 \<le> j" and j: "j < length ?P"
    then have "?s ! j = ?P ! j" by (simp add: nth_append)
    moreover have "?P ! j \<in> set ?P" using j by (rule nth_mem)
    ultimately have "?s ! j \<noteq> delim p" using pre d by auto
    moreover from j have "j < length ?s" by simp
    ultimately show "match_at p ?s j = None" using ml match_at_no_delim [of j ?s p] by blast
  qed simp_all
  have nle: "\<not> length ?s \<le> length ?P" using ml by simp
  have m: "match_at p ?s (length ?P) = Some (length ?s)"
    by (rule match_at_own [OF p pre(2,3) u])
  have e: "scan p ?s (length ?s) = []"
    by (subst scan.simps) simp
  have "scan p ?s (length ?P)
          = (if length ?s \<le> length ?P then []
             else (case match_at p ?s (length ?P) of
                     None \<Rightarrow> scan p ?s (Suc (length ?P))
                   | Some e \<Rightarrow> (length ?P, e) # scan p ?s e))"
    by (rule scan.simps)
  also have "\<dots> = (length ?P, length ?s) # scan p ?s (length ?s)"
    unfolding m using nle by (simp only: if_False option.case)
  finally have "scan p ?s (length ?P) = [(length ?P, length ?s)]"
    by (simp only: e)
  with skip show ?thesis by (simp only:)
qed

text \<open>The two strikethrough patterns do not match each other's markers.\<close>

lemma strike1_None:
  assumes "i < length s"
    and "(Suc i < length s \<and> s ! Suc i = 126) \<or> (0 < i \<and> s ! (i - 1) = 126)"
  shows "match_at pat_strike1 s i = None"
proof -
  from assms(2) show ?thesis
  proof
    assume a: "Suc i < length s \<and> s ! Suc i = 126"
    then have "drop (Suc i) s = 126 # drop (Suc (Suc i)) s"
      by (metis Cons_nth_drop_Suc)
    then show ?thesis by (simp add: match_at_def Let_def pat_strike1_def)
  next
    assume "0 < i \<and> s ! (i - 1) = 126"
    then show ?thesis by (simp add: match_at_def Let_def pat_strike1_def)
  qed
qed

lemma strike2_None:
  assumes "\<not> (Suc i < length s \<and> s ! i = 126 \<and> s ! Suc i = 126)"
  shows "match_at pat_strike2 s i = None"
proof (cases "Suc i < length s")
  case True
  then have "drop i s = s ! i # s ! Suc i # drop (Suc (Suc i)) s"
    by (metis Cons_nth_drop_Suc Suc_lessD)
  with assms True have "take 2 (drop i s) \<noteq> replicate 2 126"
    by (auto simp: numeral_2_eq_2)
  then show ?thesis by (simp add: match_at_def Let_def pat_strike2_def)
next
  case False
  then have "length (take 2 (drop i s)) < 2" by simp
  then have "take 2 (drop i s) \<noteq> replicate 2 126"
    by (metis length_replicate less_irrefl)
  then show ?thesis by (simp add: match_at_def Let_def pat_strike2_def)
qed

lemma scan_strike1_on_double:
  assumes "\<forall>c \<in> set pre. c \<noteq> 126" and "\<forall>c \<in> set u. c \<noteq> 126"
  shows "scan pat_strike1 (pre @ [126, 126] @ u @ [126, 126]) 0 = []"
proof (rule scan_all_None)
  let ?s = "pre @ [126, 126] @ u @ [126, 126]"
  fix j assume j: "j < length ?s"
  show "match_at pat_strike1 ?s j = None"
  proof (cases "?s ! j = 126")
    case False
    with j show ?thesis by (simp add: match_at_no_delim pat_strike1_def)
  next
    case True
    have "j \<notin> {0..<length pre}" "j \<notin> {length pre + 2..<length pre + 2 + length u}"
      using True assms by (auto simp: nth_append nth_Cons split: nat.splits if_splits)
    with j have "j = length pre \<or> j = length pre + 1 \<or> j = length pre + 2 + length u
                 \<or> j = length pre + 3 + length u" by auto
    then have "(Suc j < length ?s \<and> ?s ! Suc j = 126) \<or> (0 < j \<and> ?s ! (j - 1) = 126)"
      by (auto simp: nth_append nth_Cons split: nat.splits)
    with j show ?thesis by (rule strike1_None)
  qed
qed

lemma scan_strike2_on_single:
  assumes "\<forall>c \<in> set pre. c \<noteq> 126" and "\<forall>c \<in> set u. c \<noteq> 126" and "u \<noteq> []"
  shows "scan pat_strike2 (pre @ [126] @ u @ [126]) 0 = []"
proof (rule scan_all_None)
  let ?s = "pre @ [126] @ u @ [126]"
  fix j assume j: "j < length ?s"
  have "\<not> (Suc j < length ?s \<and> ?s ! j = 126 \<and> ?s ! Suc j = 126)"
  proof
    assume a: "Suc j < length ?s \<and> ?s ! j = 126 \<and> ?s ! Suc j = 126"
    then have "j \<notin> {0..<length pre}" "j \<notin> {length pre + 1..<length pre + 1 + length u}"
      using assms by (auto simp: nth_append nth_Cons split: nat.splits if_splits)
    with a have "j = length pre" by auto
    with a assms(2,3) show False
      by (cases u) (auto simp: nth_append)
  qed
  then show "match_at pat_strike2 ?s j = None" by (rule strike2_None)
qed

lemma strip_all_in:
  "(\<And>i. k \<le> i \<Longrightarrow> i < k + length xs \<Longrightarrow> i \<in> mk) \<Longrightarrow> strip mk k xs = []"
proof (induction xs arbitrary: k)
  case Nil
  show ?case by simp
next
  case (Cons x xs)
  have "k \<in> mk" using Cons.prems [of k] by simp
  moreover have "strip mk (Suc k) xs = []"
    by (rule Cons.IH) (use Cons.prems in auto)
  ultimately show ?case by simp
qed

lemma strip_none_in:
  "(\<And>i. k \<le> i \<Longrightarrow> i < k + length xs \<Longrightarrow> i \<notin> mk) \<Longrightarrow> strip mk k xs = xs"
proof (induction xs arbitrary: k)
  case Nil
  show ?case by simp
next
  case (Cons x xs)
  have "k \<notin> mk" using Cons.prems [of k] by simp
  moreover have "strip mk (Suc k) xs = xs"
    by (rule Cons.IH) (use Cons.prems in auto)
  ultimately show ?case by simp
qed

text \<open>Stripping the two delimiters of one marker pair.\<close>

lemma strip_pair:
  assumes "mk = {length P..<length P + ml} \<union> {length P + ml + length u..<length P + ml + length u + ml}"
  shows "strip mk 0 (P @ replicate ml d @ u @ rest) = P @ u @ strip mk (length P + ml + length u) rest"
proof -
  have 1: "strip mk 0 P = P"
    by (rule strip_none_in) (simp add: assms)
  have 2: "strip mk (length P) (replicate ml d) = []"
    by (rule strip_all_in) (simp add: assms)
  have 3: "strip mk (length P + ml) u = u"
    by (rule strip_none_in) (simp add: assms)
  show ?thesis by (simp add: strip_append 1 2 3 add.assoc)
qed

lemma strip_pair_full:
  assumes "mk = {length P..<length P + ml} \<union> {length P + ml + length u..<length P + ml + length u + ml}"
  shows "strip mk 0 (P @ replicate ml d @ u @ replicate ml d) = P @ u"
proof -
  have "strip mk (length P + ml + length u) (replicate ml d) = []"
    by (rule strip_all_in) (simp add: assms)
  with strip_pair [OF assms, of d "replicate ml d"] show ?thesis by simp
qed

lemma scan_other:
  assumes p: "p \<in> set patterns" and q: "q \<in> set patterns" and ne: "q \<noteq> p"
    and pre: "\<forall>c \<in> set P. \<not> marker_char c"
    and u: "u \<noteq> []" "\<forall>c \<in> set u. \<not> marker_char c"
  shows "scan q (P @ replicate (markerLen p) (delim p) @ u @ replicate (markerLen p) (delim p)) 0 = []"
proof (cases "delim q = delim p")
  case False
  have "marker_char (delim q)" "0 < markerLen q" using pattern_facts [OF q] by auto
  with False pre u(2) show ?thesis
    by (intro scan_no_delim) auto
next
  case True
  have t: "\<forall>c \<in> set P. c \<noteq> 126" "\<forall>c \<in> set u. c \<noteq> 126"
    using pre u(2) by (auto simp: marker_char_def)
  have delims: "delim pat_code = 96" "delim pat_spoiler = 124" "delim pat_strike2 = 126"
    "delim pat_strike1 = 126" "delim pat_bold = 42" "delim pat_italic = 95"
    by (simp_all add: pat_defs)
  from patterns_cases [OF p] patterns_cases [OF q] True ne
  have "(p = pat_strike2 \<and> q = pat_strike1) \<or> (p = pat_strike1 \<and> q = pat_strike2)"
    by (elim disjE) (simp_all add: delims)
  then show ?thesis
  proof
    assume "p = pat_strike2 \<and> q = pat_strike1"
    with scan_strike1_on_double [OF t] show ?thesis
      by (simp add: pat_strike2_def numeral_2_eq_2)
  next
    assume "p = pat_strike1 \<and> q = pat_strike2"
    with scan_strike2_on_single [OF t u(1)] show ?thesis
      by (simp add: pat_strike1_def)
  qed
qed

lemma collect_pattern_empty: "scan q s 0 = [] \<Longrightarrow> collect_pattern s st q = st"
  by (simp add: collect_pattern_def)

lemma collect_pattern_single: "scan q s 0 = [c] \<Longrightarrow> collect_pattern s st q = claim q st c"
  by (simp add: collect_pattern_def)

lemma foldl_collect_single:
  assumes "\<And>q. q \<in> set ps \<Longrightarrow> q \<noteq> p \<Longrightarrow> scan q s 0 = []" and "scan p s 0 = [c]" and "distinct ps"
  shows "foldl (collect_pattern s) st ps = (if p \<in> set ps then claim p st c else st)"
  using assms
proof (induction ps arbitrary: st)
  case Nil
  show ?case by simp
next
  case (Cons q qs)
  show ?case
  proof (cases "q = p")
    case True
    with Cons.prems(3) have "p \<notin> set qs" by simp
    moreover have "foldl (collect_pattern s) (claim p st c) qs
                     = (if p \<in> set qs then claim p (claim p st c) c else claim p st c)"
      by (rule Cons.IH) (use Cons.prems in auto)
    ultimately show ?thesis using True Cons.prems(2) by (simp add: collect_pattern_single)
  next
    case False
    then have "collect_pattern s st q = st"
      using Cons.prems(1) [of q] by (simp add: collect_pattern_empty)
    moreover have "foldl (collect_pattern s) st qs = (if p \<in> set qs then claim p st c else st)"
      by (rule Cons.IH) (use Cons.prems in auto)
    ultimately show ?thesis using False by simp
  qed
qed

lemma delim_neq: "delim a \<noteq> delim b \<Longrightarrow> a \<noteq> b"
  by auto

lemma markerLen_neq: "markerLen a \<noteq> markerLen b \<Longrightarrow> a \<noteq> b"
  by auto

lemma distinct_patterns: "distinct patterns"
proof -
  have "pat_code \<noteq> pat_spoiler" "pat_code \<noteq> pat_strike2" "pat_code \<noteq> pat_strike1"
    "pat_code \<noteq> pat_bold" "pat_code \<noteq> pat_italic" "pat_spoiler \<noteq> pat_strike2"
    "pat_spoiler \<noteq> pat_strike1" "pat_spoiler \<noteq> pat_bold" "pat_spoiler \<noteq> pat_italic"
    "pat_strike2 \<noteq> pat_bold" "pat_strike2 \<noteq> pat_italic"
    "pat_strike1 \<noteq> pat_bold" "pat_strike1 \<noteq> pat_italic" "pat_bold \<noteq> pat_italic"
    by (rule delim_neq, simp add: pat_defs)+
  moreover have "pat_strike2 \<noteq> pat_strike1"
    by (rule markerLen_neq) (simp add: pat_defs)
  ultimately show ?thesis by (simp add: patterns_def)
qed

lemma claim_init:
  "claim p \<lparr>matches = [], markers = {}, protected = {}\<rparr> (a, b)
   = \<lparr>matches = [\<lparr>openStart = a, openEnd = a + markerLen p,
                     closeStart = a + (b - a) - markerLen p, closeEnd = a + (b - a),
                     style = pstyle p\<rparr>],
      markers = {a..<a + markerLen p} \<union> {a + (b - a) - markerLen p..<a + (b - a)},
      protected = (if pstyle p = MONOSPACE then {a + markerLen p..<a + (b - a) - markerLen p} else {})\<rparr>"
  by (simp add: claim_def Let_def list_ex_iff del: upt_Suc)

lemma collect_single:
  assumes p: "p \<in> set patterns"
    and pre: "\<forall>c \<in> set pre. \<not> marker_char c" "\<not> marker_char x" "\<not> word_char x"
    and u: "u \<noteq> []" "\<forall>c \<in> set u. \<not> marker_char c"
    and s: "s = (pre @ [x]) @ replicate (markerLen p) (delim p) @ u @ replicate (markerLen p) (delim p)"
  shows "collect patterns s
         = \<lparr>matches = [\<lparr>openStart = length pre + 1, openEnd = length pre + 1 + markerLen p,
                         closeStart = length pre + 1 + markerLen p + length u,
                         closeEnd = length s, style = pstyle p\<rparr>],
            markers = {length pre + 1..<length pre + 1 + markerLen p}
                      \<union> {length pre + 1 + markerLen p + length u..<length s},
            protected = (if pstyle p = MONOSPACE
                         then {length pre + 1 + markerLen p..<length pre + 1 + markerLen p + length u}
                         else {})\<rparr>"
proof -
  let ?init = "\<lparr>matches = [], markers = {}, protected = {}\<rparr>"
  have own: "scan p s 0 = [(length (pre @ [x]), length s)]"
    unfolding s by (rule scan_own [OF p pre u])
  have other: "\<And>q. q \<in> set patterns \<Longrightarrow> q \<noteq> p \<Longrightarrow> scan q s 0 = []"
    unfolding s by (rule scan_other [OF p _ _ _ u]) (use pre in auto)
  have "collect patterns s = claim p ?init (length (pre @ [x]), length s)"
    unfolding collect_def
    using foldl_collect_single [OF other own distinct_patterns, of ?init] p by simp
  also have "\<dots> = \<lparr>matches = [\<lparr>openStart = length pre + 1, openEnd = length pre + 1 + markerLen p,
                         closeStart = length pre + 1 + markerLen p + length u,
                         closeEnd = length s, style = pstyle p\<rparr>],
            markers = {length pre + 1..<length pre + 1 + markerLen p}
                      \<union> {length pre + 1 + markerLen p + length u..<length s},
            protected = (if pstyle p = MONOSPACE
                         then {length pre + 1 + markerLen p..<length pre + 1 + markerLen p + length u}
                         else {})\<rparr>"
    unfolding claim_init by (simp add: s ac_simps)
  finally show ?thesis .
qed

lemma lookup_nat: "lookup im (int k) = (if k < length im then Some (im ! k) else None)"
  by (simp add: lookup_def)

lemma build_length: "length (fst (build mk s)) = length s"
  by (simp add: build_eq)

lemma build_nth:
  "k < length s \<Longrightarrow>
     fst (build mk s) ! k = (if k \<in> mk then - 1 else int (length (strip mk 0 (take k s))))"
  by (simp add: build_eq del: upt_Suc)

lemma lastContent_stop: "lookup im l \<noteq> Some (- 1) \<Longrightarrow> lastContent im oE l = l"
  by (subst lastContent.simps) simp

lemma map_filter_single: "f x = Some y \<Longrightarrow> List.map_filter f [x] = [y]"
  by (simp add: map_filter_def)

lemma parse_unfold:
  assumes "input \<noteq> []" and "matches (collect patterns input) \<noteq> []"
  shows "parseSignalStyles input
         = (snd (build (markers (collect patterns input)) input),
            sort_key ts_start
              (List.map_filter (span_of (fst (build (markers (collect patterns input)) input)))
                 (matches (collect patterns input))))"
  using assms by (simp add: parseSignalStyles_def Let_def split: prod.splits)

lemma parse_single:
  assumes p: "p \<in> set patterns"
    and pre: "\<forall>c \<in> set pre. \<not> marker_char c" "\<not> marker_char x" "\<not> word_char x"
    and u: "u \<noteq> []" "\<forall>c \<in> set u. \<not> marker_char c"
  shows "parseSignalStyles ((pre @ [x]) @ replicate (markerLen p) (delim p) @ u @ replicate (markerLen p) (delim p))
         = ((pre @ [x]) @ u,
            [\<lparr>ts_style = pstyle p, ts_start = int (length (pre @ [x])), ts_length = int (length u)\<rparr>])"
proof -
  let ?ml = "markerLen p"
  let ?D = "replicate ?ml (delim p)"
  let ?P = "pre @ [x]"
  let ?s = "?P @ ?D @ u @ ?D"
  let ?mk = "{length ?P..<length ?P + ?ml} \<union> {length ?P + ?ml + length u..<length ?P + ?ml + length u + ?ml}"
  let ?m = "\<lparr>openStart = length pre + 1, openEnd = length pre + 1 + ?ml,
             closeStart = length pre + 1 + ?ml + length u,
             closeEnd = length ?s, style = pstyle p\<rparr>"
  obtain u' y where uy: "u = u' @ [y]" using u(1) by (cases u rule: rev_cases) auto
  have ml: "0 < ?ml" using pattern_facts [OF p] by simp
  have c: "matches (collect patterns ?s) = [?m]" "markers (collect patterns ?s) = ?mk"
    using collect_single [OF p pre u refl] by (simp_all add: add.assoc)
  have out: "strip ?mk 0 ?s = ?P @ u"
    by (rule strip_pair_full) simp
  let ?im = "fst (build ?mk ?s)"
  have b: "snd (build ?mk ?s) = ?P @ u"
    unfolding build_eq snd_conv by (rule out)
  have t1: "take (length ?P + ?ml) ?s = ?P @ ?D" by simp
  have s1: "strip ?mk 0 (?P @ ?D) = ?P"
  proof -
    have "strip ?mk (length ?P) ?D = []" by (rule strip_all_in) simp
    moreover have "strip ?mk 0 ?P = ?P" by (rule strip_none_in) simp
    ultimately show ?thesis by (simp add: strip_append)
  qed
  have oe: "openEnd ?m = length ?P + ?ml" by simp
  have k1: "length ?P + ?ml < length ?s" "length ?P + ?ml \<notin> ?mk" using u(1) by simp_all
  have start: "lookup ?im (int (openEnd ?m)) = Some (int (length ?P))"
    unfolding oe lookup_nat build_length using k1 build_nth [OF k1(1), of ?mk]
    by (simp only: t1 s1 if_True if_False)
  have t2: "take (length ?P + ?ml + length u') ?s = ?P @ ?D @ u'" by (simp add: uy)
  have s2: "strip ?mk 0 (?P @ ?D @ u') = ?P @ u'"
  proof -
    have "strip ?mk (length ?P + ?ml) u' = u'"
      by (rule strip_none_in) (simp add: uy)
    moreover have "strip ?mk (length ?P) ?D = []" by (rule strip_all_in) simp
    moreover have "strip ?mk 0 ?P = ?P" by (rule strip_none_in) simp
    ultimately show ?thesis by (simp add: strip_append)
  qed
  have l: "int (closeStart ?m) - 1 = int (length ?P + ?ml + length u')" by (simp add: uy)
  have k2: "length ?P + ?ml + length u' < length ?s" "length ?P + ?ml + length u' \<notin> ?mk"
    by (simp_all add: uy)
  have e: "lookup ?im (int (length ?P + ?ml + length u')) = Some (int (length (?P @ u')))"
    unfolding lookup_nat build_length using k2 build_nth [OF k2(1), of ?mk]
    by (simp only: t2 s2 if_True if_False)
  have last: "lastContent ?im (int (openEnd ?m)) (int (closeStart ?m) - 1) = int (length ?P + ?ml + length u')"
    unfolding l
  proof (rule lastContent_stop)
    show "lookup ?im (int (length ?P + ?ml + length u')) \<noteq> Some (- 1)"
      unfolding e by simp
  qed
  have sp: "span_of ?im ?m = Some \<lparr>ts_style = pstyle p, ts_start = int (length ?P), ts_length = int (length u)\<rparr>"
    unfolding span_of_def Let_def last start e
    by (simp add: uy)
  have ne: "?s \<noteq> []" by simp
  have mne: "matches (collect patterns ?s) \<noteq> []" unfolding c by simp
  have "parseSignalStyles ?s
          = (snd (build ?mk ?s), sort_key ts_start (List.map_filter (span_of ?im) [?m]))"
    using parse_unfold [OF ne mne] unfolding c .
  also have "snd (build ?mk ?s) = ?P @ u" by (rule b)
  also have "List.map_filter (span_of ?im) [?m]
               = [\<lparr>ts_style = pstyle p, ts_start = int (length ?P), ts_length = int (length u)\<rparr>]"
    by (rule map_filter_single) (rule sp)
  finally show ?thesis by simp
qed

section \<open>Text style codec: offsets in UTF-16 code units\<close>

lemma utf16s_Cons: "utf16s (c # cs) = utf16 c @ utf16s cs"
  by (simp add: utf16s_def)

lemma utf16s_append: "utf16s (xs @ ys) = utf16s xs @ utf16s ys"
  by (simp add: utf16s_def)

lemma utf16s_replicate: "d < 65536 \<Longrightarrow> utf16s (replicate n d) = replicate n d"
  by (induction n) (simp_all add: utf16s_def utf16_def)

lemma utf16_no_marker: "\<not> marker_char c \<Longrightarrow> u \<in> set (utf16 c) \<Longrightarrow> \<not> marker_char u"
  by (auto simp: utf16_def marker_char_def split: if_splits)

lemma utf16s_no_marker:
  "\<forall>c \<in> set cs. \<not> marker_char c \<Longrightarrow> \<forall>u \<in> set (utf16s cs). \<not> marker_char u"
  by (auto simp: utf16s_def dest: utf16_no_marker)

lemma utf16s_nonempty: "cs \<noteq> [] \<Longrightarrow> utf16s cs \<noteq> []"
  by (cases cs) (auto simp: utf16s_def utf16_def)

text \<open>
  C6. A character outside the Basic Multilingual Plane takes two code units. When the
  input is such a character, a space, and one marker pair of any of the six forms
  around a content without marker characters, the stripped text is the character, the
  space and the content, and the one span starts at 3 and is as long as the UTF-16
  encoding of the content.
\<close>

theorem astral_prefix_span:
  assumes "p \<in> set patterns" and "65536 \<le> cp" and "body \<noteq> []"
    and "\<forall>c \<in> set body. \<not> marker_char c"
  shows "length (utf16 cp) = 2
         \<and> parseSignalStyles (utf16s (cp # 32 # replicate (markerLen p) (delim p) @ body
                                      @ replicate (markerLen p) (delim p)))
           = (utf16s (cp # 32 # body),
              [\<lparr>ts_style = pstyle p, ts_start = 3, ts_length = int (length (utf16s body))\<rparr>])"
proof -
  let ?h = "55296 + (cp - 65536) div 1024" and ?l = "56320 + (cp - 65536) mod 1024"
  let ?D = "replicate (markerLen p) (delim p)"
  have cp: "utf16 cp = [?h, ?l]" using assms(2) by (simp add: utf16_def)
  have d: "delim p < 65536" using patterns_cases [OF assms(1)] by (auto simp: pat_defs)
  have inp: "utf16s (cp # 32 # ?D @ body @ ?D) = ([?h, ?l] @ [32]) @ ?D @ utf16s body @ ?D"
    by (simp add: utf16s_Cons utf16s_append utf16s_replicate [OF d] cp) (simp add: utf16_def)
  have outp: "utf16s (cp # 32 # body) = ([?h, ?l] @ [32]) @ utf16s body"
    by (simp add: utf16s_Cons cp) (simp add: utf16_def)
  have "parseSignalStyles (([?h, ?l] @ [32]) @ ?D @ utf16s body @ ?D)
          = (([?h, ?l] @ [32]) @ utf16s body,
             [\<lparr>ts_style = pstyle p, ts_start = int (length ([?h, ?l] @ [32])),
               ts_length = int (length (utf16s body))\<rparr>])"
  proof (rule parse_single [OF assms(1)])
    show "\<forall>c \<in> set [?h, ?l]. \<not> marker_char c" by (simp add: marker_char_def)
    show "\<not> marker_char 32" by (simp add: marker_char_def)
    show "\<not> word_char 32" by (simp add: word_char_def)
    show "utf16s body \<noteq> []" using assms(3) by (rule utf16s_nonempty)
    show "\<forall>c \<in> set (utf16s body). \<not> marker_char c" using assms(4) by (rule utf16s_no_marker)
  qed
  then show ?thesis unfolding inp outp using cp by simp
qed

theorem astral_prefix_span_witness:
  "parseSignalStyles (utf16s [127881, 32, 42, 98, 128512, 42])
     = ([55356, 57225, 32, 98, 55357, 56832], [\<lparr>ts_style = BOLD, ts_start = 3, ts_length = 3\<rparr>])"
proof -
  have "pat_bold \<in> set patterns" by (simp add: patterns_def)
  moreover have "(65536::nat) \<le> 127881" "[98, 128512] \<noteq> ([]::nat list)"
    "\<forall>c \<in> set [98, 128512]. \<not> marker_char c"
    by (simp_all add: marker_char_def)
  ultimately have "parseSignalStyles (utf16s (127881 # 32 # replicate (markerLen pat_bold) (delim pat_bold)
                       @ [98, 128512] @ replicate (markerLen pat_bold) (delim pat_bold)))
           = (utf16s (127881 # 32 # [98, 128512]),
              [\<lparr>ts_style = pstyle pat_bold, ts_start = 3, ts_length = int (length (utf16s [98, 128512]))\<rparr>])"
    using astral_prefix_span [of pat_bold 127881 "[98, 128512]"] by blast
  then show ?thesis by (simp add: pat_bold_def utf16s_def utf16_def)
qed

end
